theory Spec2Isabelle
  imports Complex_Main "HOL-Library.Word" "HOL-Library.Multiset" "HOL-Library.Signed_Division"
begin

section \<open>Data of the measurement core (main.c)\<close>

text \<open>
  A \<open>byte\<close> is \<open>uint8_t\<close>.  Blocks, keys and files are lists of bytes.  A C \<open>double\<close> is
  represented by the real number it denotes; only code that stores, copies or compares
  doubles, or adds up whole numbers in them, is modelled this way, never code whose result
  depends on rounding.
\<close>

type_synonym byte = "8 word"
type_synonym double = real

text \<open>
  The cipher of \<open>aes.h\<close> (\<open>aes_expand\<close> followed by \<open>aes\<close>) is a parameter: it maps the
  expanded key and a cleartext block to the block left in \<open>encdata\<close>.
\<close>

type_synonym cipher = "byte list \<Rightarrow> byte list \<Rightarrow> byte list"

section \<open>Brute force\<close>

text \<open>
  \<open>cmp_zip\<close>: "sorts zipped bytes with double vals in reverse".  The bytes compared are
  positions 0..15, here naturals.
\<close>

definition cmp_zip :: "nat \<Rightarrow> nat \<Rightarrow> double list \<Rightarrow> int" where
  "cmp_zip p1 p2 val =
     (if val ! p2 > val ! p1 then 1
      else if val ! p1 > val ! p2 then - 1
      else 0)"

text \<open>
  \<open>qsort_r\<close> is the C library's: it returns the array rearranged so that no element
  compares greater than a later one.  The order of elements that compare equal is not
  fixed by its contract; glibc sorts an array of 16 bytes by merging, which keeps them in
  input order, and so does the insertion sort that stands for it here.
\<close>

fun qsort_insert :: "('a \<Rightarrow> 'a \<Rightarrow> int) \<Rightarrow> 'a \<Rightarrow> 'a list \<Rightarrow> 'a list" where
  "qsort_insert cmp x [] = [x]"
| "qsort_insert cmp x (y # ys) =
     (if cmp x y \<le> 0 then x # y # ys else y # qsort_insert cmp x ys)"

definition qsort_r :: "'a list \<Rightarrow> ('a \<Rightarrow> 'a \<Rightarrow> 'v \<Rightarrow> int) \<Rightarrow> 'v \<Rightarrow> 'a list" where
  "qsort_r base compar arg = foldr (qsort_insert (\<lambda>a b. compar a b arg)) base []"

text \<open>
  \<open>brute_force_attempt\<close>: expand \<open>key\<close>, encrypt \<open>data\<close>, compare the 16 bytes of
  \<open>encdata\<close> with \<open>target_enctext\<close>; 0 on a match, 1 otherwise.  The tick count that
  \<open>run\<close> returns is dropped by the caller.
\<close>

definition brute_force_attempt :: "cipher \<Rightarrow> byte list \<Rightarrow> byte list \<Rightarrow> byte list \<Rightarrow> int" where
  "brute_force_attempt aes key data target_enctext =
     (let encdata = aes key data in
      if list_ex (\<lambda>i. target_enctext ! i \<noteq> encdata ! i) [0..<16] then 1 else 0)"

text \<open>
  The pool file: 16 times a length byte (0 stands for 256) and that many candidate
  bytes.  The length byte is read into the low byte of the zeroed \<open>int lens[i]\<close> (the
  program is x86 code, little-endian).  A short read makes \<open>brute_force\<close> return 1; here
  that is \<open>None\<close>.  \<open>lens\<close> and \<open>indices\<close> are C \<open>int\<close>s that stay within 0..256, so they
  are naturals.
\<close>

fun read_pools :: "nat \<Rightarrow> byte list \<Rightarrow> (nat list \<times> byte list list) option" where
  "read_pools 0 f = Some ([], [])"
| "read_pools (Suc n) [] = None"
| "read_pools (Suc n) (l # f) =
     (let len = (if unat l = 0 then 256 else unat l) in
      if length f < len then None
      else case read_pools n (drop len f) of
             None \<Rightarrow> None
           | Some (lens, bytes) \<Rightarrow> Some (len # lens, take len f # bytes))"

text \<open>
  The inner loop \<open>while (++indices[*ptr] >= lens[*ptr]) { indices[*ptr] = 0; if (++ptr >= end) break; }\<close>.
  The third argument is the part of \<open>order\<close> from \<open>ptr\<close> to \<open>end\<close>; the result tells
  whether \<open>ptr\<close> reached \<open>end\<close>.
\<close>

fun carry :: "nat list \<Rightarrow> nat list \<Rightarrow> nat list \<Rightarrow> nat list \<times> bool" where
  "carry lens indices [] = (indices, True)"
| "carry lens indices (p # ptr) =
     (if indices ! p + 1 \<ge> lens ! p then carry lens (indices[p := 0]) ptr
      else (indices[p := indices ! p + 1], False))"

text \<open>\<open>for (int i = 0; i < 16; ++i) key[i] = bytes[i][indices[i]];\<close>\<close>

definition assemble_key :: "byte list list \<Rightarrow> nat list \<Rightarrow> byte list" where
  "assemble_key bytes indices = map (\<lambda>i. bytes ! i ! (indices ! i)) [0..<16]"

text \<open>
  The outer loop of \<open>brute_force\<close>.  The last argument records the keys handed to
  \<open>brute_force_attempt\<close> so far, in order; the result is the return code and that record.
\<close>

partial_function (option) bf_loop ::
  "cipher \<Rightarrow> byte list list \<Rightarrow> nat list \<Rightarrow> nat list \<Rightarrow> byte list \<Rightarrow> byte list \<Rightarrow>
   nat list \<Rightarrow> byte list list \<Rightarrow> (int \<times> byte list list) option" where
  "bf_loop aes bytes lens order target_enctext cleartext indices tried =
     (let key = assemble_key bytes indices in
      if brute_force_attempt aes key cleartext target_enctext = 0
      then Some (0, tried @ [key])
      else let (indices', overflow) = carry lens indices order in
           if overflow then Some (1, tried @ [key])
           else bf_loop aes bytes lens order target_enctext cleartext indices' (tried @ [key]))"

declare bf_loop.simps [code]

text \<open>
  The array \<open>order\<close> after \<open>qsort_r(order, 16, sizeof(byte), cmp_zip, d_lens)\<close>, where
  \<open>order[i] = i\<close> and \<open>d_lens[i] = lens[i]\<close> before the call.
\<close>

definition bf_order :: "nat list \<Rightarrow> nat list" where
  "bf_order lens = qsort_r [0..<16] cmp_zip (map real lens)"

text \<open>
  \<open>brute_force\<close>: -1 when \<open>bf.dat\<close> cannot be opened, 1 when it is too short, otherwise the
  outcome of the search from the all-zero counter vector.  The reference ciphertext is the
  all-zeros block encrypted under \<open>target_key\<close>.
\<close>

definition brute_force ::
  "cipher \<Rightarrow> byte list option \<Rightarrow> byte list \<Rightarrow> (int \<times> byte list list) option" where
  "brute_force aes bf_file target_key =
     (case bf_file of
        None \<Rightarrow> Some (- 1, [])
      | Some f \<Rightarrow>
          let cleartext = replicate 16 0;
              target_enctext = aes target_key cleartext
          in case read_pools 16 f of
               None \<Rightarrow> Some (1, [])
             | Some (lens, bytes) \<Rightarrow>
                 bf_loop aes bytes lens (bf_order lens) target_enctext cleartext
                   (replicate 16 0) [])"


section \<open>Timing measurements\<close>

text \<open>
  The globals of main.c that the measurement code reads and writes: \<open>int tally_threshold\<close>,
  \<open>int total_runs\<close>, \<open>long long total_ticks\<close> and \<open>double d_arg\<close>.  Two counters stand
  for the outside world: \<open>clock\<close> counts the calls of \<open>run\<close> so far and \<open>rand_pos\<close> the
  calls of \<open>rand\<close>.
\<close>

record globals =
  tally_threshold :: "32 word"
  total_runs :: "32 word"
  total_ticks :: "64 word"
  d_arg :: double
  clock :: nat
  rand_pos :: nat

text \<open>
  The outside world: \<open>rdtsc_ticks e n\<close> is the \<open>int\<close> that the \<open>n\<close>-th call of \<open>run\<close>
  returns (the difference of two \<open>__rdtsc\<close> readings around one encryption), and
  \<open>rand e n\<close> is the byte stored from the \<open>n\<close>-th call of \<open>rand\<close>.  \<open>srand\<close> only
  decides which bytes come; it has no other effect.
\<close>

record env =
  rdtsc_ticks :: "nat \<Rightarrow> 32 word"
  rand :: "nat \<Rightarrow> byte"

record tally =
  num :: "64 word"
  ticks :: double

definition init_globals :: globals where
  "init_globals = \<lparr>tally_threshold = 2147483647, total_runs = 0, total_ticks = 0,
                    d_arg = 0, clock = 0, rand_pos = 0\<rparr>"

text \<open>\<open>memset(tly, 0, 16 * 256 * sizeof(struct tally))\<close>.\<close>

definition zero_tally :: "tally list list" where
  "zero_tally = replicate 16 (replicate 256 \<lparr>num = 0, ticks = 0\<rparr>)"

text \<open>\<open>rand_bytes\<close> (with \<open>num\<close> below 256, as in every call).\<close>

definition rand_bytes :: "env \<Rightarrow> nat \<Rightarrow> globals \<Rightarrow> byte list \<times> globals" where
  "rand_bytes e n st =
     (map (\<lambda>i. rand e (rand_pos st + i)) [0..<n], st\<lparr>rand_pos := rand_pos st + n\<rparr>)"

text \<open>\<open>run\<close>: one timed encryption; the ciphertext goes to the trash can \<open>encdata\<close>.\<close>

definition run :: "env \<Rightarrow> globals \<Rightarrow> 32 word \<times> globals" where
  "run e st = (rdtsc_ticks e (clock st), st\<lparr>clock := clock st + 1\<rparr>)"

text \<open>The loop \<open>do { ticks = run(data); } while (ticks > tally_threshold);\<close> of \<open>generate\<close>.\<close>

partial_function (option) generate_retry :: "env \<Rightarrow> globals \<Rightarrow> (32 word \<times> globals) option" where
  "generate_retry e st =
     (let (t, st') = run e st in
      if tally_threshold st' <s t then generate_retry e st' else Some (t, st'))"

declare generate_retry.simps [code]

text \<open>
  \<open>generate\<close>: randomise \<open>data\<close>, measure until the tick count is within the threshold.
  The tallying block after the loop is absent from main.c ("YOUR CODE HERE: Perform tallies
  for used cleartext"), so \<open>tly\<close>, \<open>total_runs\<close> and \<open>total_ticks\<close> come back as they went in.
  The result also names the block left in \<open>data\<close> and the accepted tick count.
\<close>

definition generate ::
  "env \<Rightarrow> globals \<Rightarrow> tally list list \<Rightarrow> (byte list \<times> 32 word \<times> globals \<times> tally list list) option" where
  "generate e st tly =
     (let (data, st1) = rand_bytes e 16 st in
      case generate_retry e st1 of
        None \<Rightarrow> None
      | Some (t, st2) \<Rightarrow> Some (data, t, st2, tly))"

text \<open>\<open>calc_means\<close>: its body is absent from main.c ("YOUR CODE HERE"); \<open>means\<close> is not written.\<close>

definition calc_means :: "tally list list \<Rightarrow> double list list \<Rightarrow> double list list" where
  "calc_means tly means = means"

text \<open>\<open>correlate\<close>: its body is absent from main.c ("YOUR CODE HERE"); \<open>corr\<close> is not written.\<close>

definition correlate ::
  "double list list \<Rightarrow> double list list \<Rightarrow> byte list \<Rightarrow> double list list \<Rightarrow> double list list" where
  "correlate means1 means2 key corr = corr"

text \<open>The loop \<open>for (int i = 0; i < runs; ++i) generate(data, tly);\<close> with \<open>n\<close> rounds to go.\<close>

fun generate_n ::
  "env \<Rightarrow> nat \<Rightarrow> byte list \<Rightarrow> globals \<Rightarrow> tally list list \<Rightarrow>
   (byte list \<times> globals \<times> tally list list) option" where
  "generate_n e 0 data st tly = Some (data, st, tly)"
| "generate_n e (Suc n) data st tly =
     (case generate e st tly of
        None \<Rightarrow> None
      | Some (data', t, st', tly') \<Rightarrow> generate_n e n data' st' tly')"

text \<open>
  \<open>study_key\<close>.  The result is the key studied, the block in \<open>data\<close>, the globals, the tally
  table and the means.  \<open>None\<close> stands for no return: a measurement loop that never ends,
  or the division \<open>total_ticks / runs\<close> of the closing \<open>printf\<close> when \<open>runs\<close> is 0.
\<close>

definition study_key ::
  "env \<Rightarrow> globals \<Rightarrow> tally list list \<Rightarrow> double list list \<Rightarrow> byte list \<Rightarrow> byte list \<Rightarrow> bool \<Rightarrow>
   32 word \<Rightarrow> (byte list \<times> byte list \<times> globals \<times> tally list list \<times> double list list) option" where
  "study_key e st tly means data test_key gen_key runs =
     (let tly0 = zero_tally;
          (test_key', st1) = (if gen_key then rand_bytes e 16 st else (test_key, st));
          st2 = st1\<lparr>total_ticks := 0, total_runs := 0\<rparr>
      in case generate_n e (nat (sint runs)) data st2 tly0 of
           None \<Rightarrow> None
         | Some (data', st3, tly') \<Rightarrow>
             if runs = 0 then None
             else Some (test_key', data', st3, tly', calc_means tly' means))"

text \<open>
  The conversion of a \<open>double\<close> to \<open>int\<close> truncates towards zero; outside the range of
  \<open>int\<close> it is undefined.
\<close>

definition double_to_int :: "double \<Rightarrow> 32 word option" where
  "double_to_int d =
     (let k = (if 0 \<le> d then \<lfloor>d\<rfloor> else \<lceil>d\<rceil>) in
      if - (2 ^ 31) \<le> k \<and> k < 2 ^ 31 then Some (word_of_int k) else None)"

text \<open>
  The loop \<open>for (total_runs = 0; total_runs < runs; ++total_runs) { rand_bytes(data, 16);
  total_ticks += run(data); }\<close> of \<open>calc_encryption_stats\<close>, entered after \<open>total_runs = 0\<close>.
\<close>

function cutoff_loop :: "env \<Rightarrow> 32 word \<Rightarrow> byte list \<Rightarrow> globals \<Rightarrow> byte list \<times> globals" where
  "cutoff_loop e runs data st =
     (if total_runs st <s runs then
        let (data', st1) = rand_bytes e 16 st;
            (t, st2) = run e st1;
            st3 = st2\<lparr>total_ticks := total_ticks st2 + scast t\<rparr>
        in cutoff_loop e runs data' (st3\<lparr>total_runs := total_runs st3 + 1\<rparr>)
      else (data, st))"
  by pat_completeness auto

termination cutoff_loop
proof -
  have succ: "sint (x + 1) = sint x + 1" if "x <s y" for x y :: "32 word"
  proof -
    have "sint x < sint y" using that by (simp add: word_sless_alt)
    moreover have "sint y < 2 ^ 31" using sint_lt [of y] by simp
    moreover have "- (2 ^ 31) \<le> sint x" using sint_ge [of x] by simp
    ultimately have "- (2 ^ 31) \<le> sint x + 1 \<and> sint x + 1 < 2 ^ 31" by simp
    then have "signed_take_bit 31 (sint x + 1) = sint x + 1"
      by (intro signed_take_bit_int_eq_self) simp_all
    then show ?thesis by (simp add: sint_word_ariths)
  qed
  show ?thesis
    apply (relation "measure (\<lambda>(e, runs, data, st). nat (sint runs - sint (total_runs st)))")
     apply simp
    apply (clarsimp simp: rand_bytes_def run_def)
    apply (frule succ)
    apply (simp add: word_sless_alt)
    done
qed

declare cutoff_loop.simps [simp del]

definition DEFAULT_RUNS :: nat where "DEFAULT_RUNS = 22"
definition THRESH_MULT :: int where "THRESH_MULT = 5"
definition KEYS_CAP :: nat where "KEYS_CAP = 10"

text \<open>
  \<open>calc_encryption_stats\<close>.  With \<open>d_arg > 0\<close> only the threshold is set.  Otherwise a
  random key is drawn, \<open>runs\<close> encryptions are timed with \<open>run\<close> itself, so that no
  measurement is discarded, and \<open>tally_threshold = total_ticks / total_runs * THRESH_MULT\<close>
  is computed in \<open>long long\<close> and stored in an \<open>int\<close>.  \<open>None\<close> stands for undefined
  behaviour: a \<open>d_arg\<close> beyond \<open>int\<close>, or the division when \<open>total_runs\<close> is 0.  The rate
  file and the messages are left out (writing them is taken to succeed).
\<close>

definition calc_encryption_stats ::
  "env \<Rightarrow> byte list \<Rightarrow> byte list \<Rightarrow> 32 word \<Rightarrow> globals \<Rightarrow> (byte list \<times> byte list \<times> globals) option" where
  "calc_encryption_stats e key data runs st =
     (if d_arg st > 0 then
        (case double_to_int (d_arg st) of
           None \<Rightarrow> None
         | Some t \<Rightarrow> Some (key, data, st\<lparr>tally_threshold := t\<rparr>))
      else
        let (key', st1) = rand_bytes e 16 st;
            (data', st2) = cutoff_loop e runs data (st1\<lparr>total_runs := 0\<rparr>)
        in if total_runs st2 = 0 then None
           else Some (key', data', st2\<lparr>tally_threshold :=
                  word_of_int (sint (total_ticks st2) sdiv sint (total_runs st2) * THRESH_MULT)\<rparr>))"

section \<open>The program\<close>

text \<open>
  The arrays of \<open>main\<close>.  They start uninitialised, so their first contents are a
  parameter.  The sum \<open>corr_total\<close> and the files written from it are left out: nothing
  that is modelled reads them, and writing them is taken to succeed.
  \<open>pearson_correlation_coefficient\<close>, which nothing in this main.c calls, is rounded
  \<open>double\<close> arithmetic and is left out as well.
\<close>

record frame =
  test_key_buf :: "byte list"
  data_buf :: "byte list"
  tly_buf :: "tally list list"
  means_test_buf :: "double list list"
  means_target_buf :: "double list list"
  corr_buf :: "double list list"

text \<open>The loop over the test keys, with \<open>n\<close> keys to go.\<close>

fun test_runs :: "env \<Rightarrow> nat \<Rightarrow> 32 word \<Rightarrow> globals \<Rightarrow> frame \<Rightarrow> (globals \<times> frame) option" where
  "test_runs e 0 runs st fr = Some (st, fr)"
| "test_runs e (Suc n) runs st fr =
     (case study_key e st (tly_buf fr) (means_test_buf fr) (data_buf fr) (test_key_buf fr) True runs of
        None \<Rightarrow> None
      | Some (k, d, st', tly', means') \<Rightarrow>
          test_runs e n runs st'
            (fr\<lparr>test_key_buf := k, data_buf := d, tly_buf := tly', means_test_buf := means',
                corr_buf := correlate means' (means_target_buf fr) k (corr_buf fr)\<rparr>))"

text \<open>What \<open>main\<close> does once \<open>brute_force\<close> has returned -1: correlation gathering.\<close>

definition gather :: "env \<Rightarrow> globals \<Rightarrow> frame \<Rightarrow> byte list \<Rightarrow> (globals \<times> frame) option" where
  "gather e st fr target_key =
     (let runs = push_bit DEFAULT_RUNS 1 in
      case calc_encryption_stats e (test_key_buf fr) (data_buf fr) runs st of
        None \<Rightarrow> None
      | Some (k, d, st1) \<Rightarrow>
          (case study_key e st1 (tly_buf fr) (means_target_buf fr) d target_key False runs of
             None \<Rightarrow> None
           | Some (tk, d', st2, tly', means') \<Rightarrow>
               test_runs e KEYS_CAP runs st2
                 (fr\<lparr>test_key_buf := k, data_buf := d', tly_buf := tly',
                     means_target_buf := means'\<rparr>)))"

text \<open>
  \<open>main\<close>: the exit code, or \<open>None\<close> when the program does not come to an end.  \<open>arg\<close> is
  what \<open>strtod\<close> makes of the first argument, if there is one; \<open>fkey\<close> and \<open>bf_file\<close> are
  the contents of \<open>aes.key\<close> and \<open>bf.dat\<close>, \<open>None\<close> when \<open>fopen\<close> fails.
\<close>

definition main ::
  "env \<Rightarrow> frame \<Rightarrow> double option \<Rightarrow> byte list option \<Rightarrow> byte list option \<Rightarrow> cipher \<Rightarrow> int option" where
  "main e fr arg fkey bf_file aes =
     (let st = init_globals\<lparr>d_arg := (case arg of None \<Rightarrow> 0 | Some d \<Rightarrow> d)\<rparr> in
      case fkey of
        None \<Rightarrow> Some 1
      | Some f \<Rightarrow>
          if length f < 16 then Some 1
          else let target_key = take 16 f in
               case brute_force aes bf_file target_key of
                 None \<Rightarrow> None
               | Some (rc, tried) \<Rightarrow>
                   if rc > - 1 then Some rc
                   else (case gather e st fr target_key of
                           None \<Rightarrow> None
                         | Some r \<Rightarrow> Some 0))"

section \<open>The tallying block, from the specification\<close>

text \<open>
  Modelled from the spec: the update of one tally cell in the tallying block of
  \<open>generate\<close>, which main.c leaves out ("YOUR CODE HERE: Perform tallies for used
  cleartext").  The specification (measurement engine, step 4) has it increment the count
  of the cell and add the duration \<open>d\<close> to its tick sum.  The fields are those of
  \<open>struct tally\<close>: \<open>num\<close> is a \<open>long long\<close> and \<open>ticks\<close> a \<open>double\<close>; \<open>d\<close> is the \<open>int\<close> that \<open>run\<close>
  returned.
\<close>

definition tally_cell :: "32 word \<Rightarrow> tally \<Rightarrow> tally" where
  "tally_cell d c = c\<lparr>num := num c + 1, ticks := ticks c + real_of_int (sint d)\<rparr>"

text \<open>
  Modelled from the spec: the tallying block of \<open>generate\<close>, absent from main.c.  The
  specification (measurement engine, step 4): on accepting plaintext \<open>P\<close> with duration \<open>d\<close>,
  for every position \<open>i\<close> in 0..15 the cell \<open>Tally(i, P[i])\<close> is updated, then \<open>d\<close> is added to
  \<open>total_ticks\<close> and \<open>total_runs\<close> is incremented.  \<open>total_ticks\<close> is a \<open>long long\<close> and
  \<open>total_runs\<close> an \<open>int\<close>, as main.c declares them.
\<close>

definition perform_tallies ::
  "byte list \<Rightarrow> 32 word \<Rightarrow> globals \<Rightarrow> tally list list \<Rightarrow> globals \<times> tally list list" where
  "perform_tallies P d st tly =
     (let tly' = map (\<lambda>i. (tly ! i)[unat (P ! i) := tally_cell d (tly ! i ! unat (P ! i))]) [0..<16];
          st1 = st\<lparr>total_ticks := total_ticks st + scast d\<rparr>
      in (st1\<lparr>total_runs := total_runs st1 + 1\<rparr>, tly'))"

text \<open>
  Modelled from the spec: \<open>generate\<close> with its tallying block in place.  The part that
  main.c has (\<open>generate\<close> above: randomise the block, measure until the tick count is
  within the threshold) is followed by the block of the specification, on the plaintext
  and the tick count that were accepted.
\<close>

definition generate_tallying ::
  "env \<Rightarrow> globals \<Rightarrow> tally list list \<Rightarrow> (byte list \<times> 32 word \<times> globals \<times> tally list list) option" where
  "generate_tallying e st tly =
     (case generate e st tly of
        None \<Rightarrow> None
      | Some (data, t, st1, tly1) \<Rightarrow>
          let (st2, tly2) = perform_tallies data t st1 tly1 in Some (data, t, st2, tly2))"

text \<open>
  Modelled from the spec: the loop \<open>for (int i = 0; i < runs; ++i) generate(data, tly);\<close>
  of \<open>study_key\<close>, over the \<open>generate\<close> that tallies.
\<close>

fun generate_n_tallying ::
  "env \<Rightarrow> nat \<Rightarrow> byte list \<Rightarrow> globals \<Rightarrow> tally list list \<Rightarrow>
   (byte list \<times> globals \<times> tally list list) option" where
  "generate_n_tallying e 0 data st tly = Some (data, st, tly)"
| "generate_n_tallying e (Suc n) data st tly =
     (case generate_tallying e st tly of
        None \<Rightarrow> None
      | Some (data', t, st', tly') \<Rightarrow> generate_n_tallying e n data' st' tly')"

text \<open>
  Modelled from the spec: a key study whose measurement loop tallies.  This is \<open>study_key\<close>
  of main.c as it stands (the table and both counters are zeroed first, the key is drawn
  if asked for), with the loop above in the place of the loop over the \<open>generate\<close> that
  main.c has.
\<close>

definition study_key_tallying ::
  "env \<Rightarrow> globals \<Rightarrow> tally list list \<Rightarrow> double list list \<Rightarrow> byte list \<Rightarrow> byte list \<Rightarrow> bool \<Rightarrow>
   32 word \<Rightarrow> (byte list \<times> byte list \<times> globals \<times> tally list list \<times> double list list) option" where
  "study_key_tallying e st tly means data test_key gen_key runs =
     (let tly0 = zero_tally;
          (test_key', st1) = (if gen_key then rand_bytes e 16 st else (test_key, st));
          st2 = st1\<lparr>total_ticks := 0, total_runs := 0\<rparr>
      in case generate_n_tallying e (nat (sint runs)) data st2 tly0 of
           None \<Rightarrow> None
         | Some (data', st3, tly') \<Rightarrow>
             if runs = 0 then None
             else Some (test_key', data', st3, tly', calc_means tly' means))"

section \<open>Notions used in the statements and proofs\<close>

text \<open>
  The counter vector read as a number in mixed radix: \<open>rank lens indices order\<close> is the
  value of \<open>indices\<close> when \<open>order ! 0\<close> is the least significant position, and
  \<open>space lens order\<close> is the number of counter vectors.
\<close>

fun rank :: "nat list \<Rightarrow> nat list \<Rightarrow> nat list \<Rightarrow> nat" where
  "rank lens indices [] = 0"
| "rank lens indices (p # ps) = indices ! p + lens ! p * rank lens indices ps"

fun space :: "nat list \<Rightarrow> nat list \<Rightarrow> nat" where
  "space lens [] = 1"
| "space lens (p # ps) = lens ! p * space lens ps"

text \<open>Counter vectors that \<open>brute_force\<close> can reach: every index is inside its pool.\<close>

definition valid_indices :: "nat list \<Rightarrow> nat list \<Rightarrow> bool" where
  "valid_indices lens idx \<longleftrightarrow> length idx = 16 \<and> (\<forall>i<16. idx ! i < lens ! i)"

text \<open>The pool file that describes the given 16 pools (a pool of 256 has length byte 0).\<close>

definition pool_file :: "byte list list \<Rightarrow> byte list" where
  "pool_file pools = concat (map (\<lambda>p. word_of_nat (length p) # p) pools)"

text \<open>
  Concrete inputs for the instances below: a cipher that returns the key as the
  ciphertext, and a world where every encryption takes 100 ticks and \<open>rand\<close> returns 0.
\<close>

definition key_cipher :: cipher where
  "key_cipher key data = key"

definition quiet_env :: env where
  "quiet_env = \<lparr>rdtsc_ticks = (\<lambda>n. 100), rand = (\<lambda>n. 0)\<rparr>"

definition empty_frame :: frame where
  "empty_frame = \<lparr>test_key_buf = [], data_buf = [], tly_buf = [], means_test_buf = [],
                   means_target_buf = [], corr_buf = []\<rparr>"

text \<open>
  The state of a tallying measurement loop after \<open>n\<close> accepted measurements: the table
  is 16 by 256, \<open>total_runs\<close> is \<open>n\<close>, every count is non-negative, the counts of every row
  add up to \<open>n\<close> and its tick sums to \<open>total_ticks\<close>, and every tick sum is a whole number
  of magnitude at most \<open>n * 2^31\<close>.
\<close>

definition tallied :: "nat \<Rightarrow> globals \<Rightarrow> tally list list \<Rightarrow> bool" where
  "tallied n st tly \<longleftrightarrow>
     length tly = 16 \<and> (\<forall>i<16. length (tly ! i) = 256) \<and>
     sint (total_runs st) = int n \<and>
     \<bar>sint (total_ticks st)\<bar> \<le> int n * 2 ^ 31 \<and>
     (\<forall>i<16. \<forall>b<256. 0 \<le> sint (num (tly ! i ! b))) \<and>
     (\<forall>i<16. (\<Sum>b<256. sint (num (tly ! i ! b))) = int n) \<and>
     (\<forall>i<16. (\<Sum>b<256. ticks (tly ! i ! b)) = real_of_int (sint (total_ticks st))) \<and>
     (\<forall>i<16. \<forall>b<256. \<exists>z. ticks (tly ! i ! b) = real_of_int z \<and> \<bar>z\<bar> \<le> int n * 2 ^ 31)"

text \<open>
  A world for a concrete measurement loop: the second encryption takes 900 ticks, the
  \<open>n\<close>-th of the others \<open>100 + n\<close>, and the \<open>n\<close>-th call of \<open>rand\<close> returns \<open>n\<close>.
\<close>

definition noisy_env :: env where
  "noisy_env = \<lparr>rdtsc_ticks = (\<lambda>n. if n = 1 then 900 else 100 + word_of_nat n),
                 rand = (\<lambda>n. word_of_nat n)\<rparr>"

section \<open>The counter of the brute force\<close>


lemma rank_cong: "\<forall>p\<in>set ps. a ! p = b ! p \<Longrightarrow> rank lens a ps = rank lens b ps"
  by (induction ps) auto

lemma rank_lt_space:
  "\<forall>p\<in>set ps. idx ! p < lens ! p \<Longrightarrow> rank lens idx ps < space lens ps"
proof (induction ps)
  case Nil
  then show ?case by simp
next
  case (Cons p ps)
  then have r: "rank lens idx ps + 1 \<le> space lens ps" and d: "idx ! p < lens ! p" by auto
  have "idx ! p + lens ! p * rank lens idx ps < lens ! p * (rank lens idx ps + 1)"
    using d by simp
  also have "\<dots> \<le> lens ! p * space lens ps" using r by (rule mult_le_mono2)
  finally show ?case by simp
qed

lemma rank_inj:
  "\<forall>p\<in>set ps. a ! p < lens ! p \<and> b ! p < lens ! p \<Longrightarrow> rank lens a ps = rank lens b ps
   \<Longrightarrow> \<forall>p\<in>set ps. a ! p = b ! p"
proof (induction ps)
  case Nil
  then show ?case by simp
next
  case (Cons p ps)
  let ?L = "lens ! p"
  from Cons.prems have la: "a ! p < ?L" and lb: "b ! p < ?L"
    and eq: "a ! p + ?L * rank lens a ps = b ! p + ?L * rank lens b ps" by auto
  from eq have "(a ! p + ?L * rank lens a ps) mod ?L = (b ! p + ?L * rank lens b ps) mod ?L"
    by simp
  with la lb have h: "a ! p = b ! p" by simp
  with eq la have "rank lens a ps = rank lens b ps" by simp
  with Cons h show ?case by auto
qed

lemma carry_props:
  "distinct ps \<Longrightarrow> \<forall>p\<in>set ps. p < length idx \<and> idx ! p < lens ! p \<Longrightarrow>
   carry lens idx ps = (idx', ovf) \<Longrightarrow>
   length idx' = length idx \<and> (\<forall>i. i \<notin> set ps \<longrightarrow> idx' ! i = idx ! i) \<and>
   (ovf \<longrightarrow> rank lens idx ps + 1 = space lens ps) \<and>
   (\<not> ovf \<longrightarrow> rank lens idx' ps = rank lens idx ps + 1 \<and> (\<forall>p\<in>set ps. idx' ! p < lens ! p))"
proof (induction ps arbitrary: idx idx' ovf)
  case Nil
  then show ?case by simp
next
  case (Cons p ps)
  let ?L = "lens ! p"
  from Cons.prems have pn: "p \<notin> set ps" and dps: "distinct ps" and pl: "p < length idx"
    and pd: "idx ! p < ?L" by auto
  show ?case
  proof (cases "idx ! p + 1 \<ge> ?L")
    case False
    with Cons.prems have e: "idx' = idx[p := idx ! p + 1]" "ovf = False" by auto
    have "\<forall>q\<in>set ps. idx' ! q = idx ! q" using pn e by (metis nth_list_update_neq)
    then have "rank lens idx' ps = rank lens idx ps" by (rule rank_cong)
    with e pl False Cons.prems(2) show ?thesis by (auto simp: nth_list_update)
  next
    case True
    with pd have ip: "idx ! p + 1 = ?L" by simp
    let ?i0 = "idx[p := 0]"
    from True Cons.prems have c: "carry lens ?i0 ps = (idx', ovf)" by simp
    have pre: "\<forall>q\<in>set ps. q < length ?i0 \<and> ?i0 ! q < lens ! q"
      using Cons.prems(2) pn by (auto simp: nth_list_update)
    note IH = Cons.IH [OF dps pre c]
    have "\<forall>q\<in>set ps. ?i0 ! q = idx ! q" using pn by (metis nth_list_update_neq)
    then have r0: "rank lens ?i0 ps = rank lens idx ps" by (rule rank_cong)
    from IH pn pl have p0: "idx' ! p = 0" by simp
    have len: "length idx' = length idx" using IH by simp
    have out: "\<forall>i. i \<notin> set (p # ps) \<longrightarrow> idx' ! i = idx ! i" using IH by auto
    have o1: "ovf \<longrightarrow> rank lens idx (p # ps) + 1 = space lens (p # ps)"
    proof
      assume ovf
      with IH r0 have "rank lens idx ps + 1 = space lens ps" by simp
      then have "space lens (p # ps) = ?L * rank lens idx ps + ?L" 
        by (metis add_mult_distrib2 mult.right_neutral space.simps(2))
      with ip show "rank lens idx (p # ps) + 1 = space lens (p # ps)" by simp
    qed
    have o2: "\<not> ovf \<longrightarrow> rank lens idx' (p # ps) = rank lens idx (p # ps) + 1 \<and>
        (\<forall>q\<in>set (p # ps). idx' ! q < lens ! q)"
    proof
      assume n: "\<not> ovf"
      with IH r0 have r: "rank lens idx' ps = rank lens idx ps + 1"
        and b: "\<forall>q\<in>set ps. idx' ! q < lens ! q" by auto
      have "rank lens idx' (p # ps) = ?L * (rank lens idx ps + 1)" using p0 r by simp
      also have "\<dots> = rank lens idx (p # ps) + 1" using ip by simp
      finally have "rank lens idx' (p # ps) = rank lens idx (p # ps) + 1" .
      moreover have "idx' ! p < ?L" using p0 pd by simp
      ultimately show "rank lens idx' (p # ps) = rank lens idx (p # ps) + 1 \<and>
        (\<forall>q\<in>set (p # ps). idx' ! q < lens ! q)" using b by simp
    qed
    from len out o1 o2 show ?thesis by blast
  qed
qed


lemma valid_rank_eq:
  assumes "set order = {0..<16}" "valid_indices lens a" "valid_indices lens b"
    "rank lens a order = rank lens b order"
  shows "a = b"
proof -
  have "\<forall>p\<in>set order. a ! p < lens ! p \<and> b ! p < lens ! p"
    using assms by (auto simp: valid_indices_def)
  from rank_inj [OF this assms(4)] have "\<forall>i<16. a ! i = b ! i" using assms(1) by auto
  then show ?thesis using assms(2,3) by (auto simp: valid_indices_def list_eq_iff_nth_eq)
qed

lemma carry_valid:
  assumes "distinct order" "set order = {0..<16}" "valid_indices lens idx"
    "carry lens idx order = (idx', ovf)"
  shows "(ovf \<longrightarrow> rank lens idx order + 1 = space lens order) \<and>
         (\<not> ovf \<longrightarrow> rank lens idx' order = rank lens idx order + 1 \<and> valid_indices lens idx')"
proof -
  have pre: "\<forall>p\<in>set order. p < length idx \<and> idx ! p < lens ! p"
    using assms(2,3) by (auto simp: valid_indices_def)
  from carry_props [OF assms(1) pre assms(4)] assms(2,3)
  show ?thesis by (auto simp: valid_indices_def)
qed

lemma bf_loop_miss:
  assumes ord: "distinct order" "set order = {0..<16}"
    and nohit: "\<forall>j. valid_indices lens j \<longrightarrow>
       brute_force_attempt aes (assemble_key bytes j) clr tgt \<noteq> 0"
  shows "valid_indices lens idx \<Longrightarrow>
    \<exists>ks. bf_loop aes bytes lens order tgt clr idx tried = Some (1, tried @ ks) \<and>
         length ks = space lens order - rank lens idx order \<and>
         set ks = {assemble_key bytes j | j. valid_indices lens j \<and>
                     rank lens idx order \<le> rank lens j order} \<and>
         ((\<forall>a b. valid_indices lens a \<and> valid_indices lens b \<and>
             assemble_key bytes a = assemble_key bytes b \<longrightarrow> a = b) \<longrightarrow> distinct ks)"
proof (induction "space lens order - rank lens idx order" arbitrary: idx tried rule: less_induct)
  case less
  let ?key = "assemble_key bytes idx"
  from less.prems nohit have nh: "brute_force_attempt aes ?key clr tgt \<noteq> 0" by blast
  obtain idx' ovf where c: "carry lens idx order = (idx', ovf)" by (cases "carry lens idx order")
  note cv = carry_valid [OF ord less.prems c]
  have lt: "rank lens idx order < space lens order"
    using less.prems ord(2) by (intro rank_lt_space) (auto simp: valid_indices_def)
  have same: "\<And>j. valid_indices lens j \<Longrightarrow> rank lens j order = rank lens idx order \<Longrightarrow> j = idx"
    using valid_rank_eq [OF ord(2) _ less.prems] by blast
  show ?case
  proof (cases ovf)
    case True
    with cv have top: "rank lens idx order + 1 = space lens order" by simp
    have r: "bf_loop aes bytes lens order tgt clr idx tried = Some (1, tried @ [?key])"
      using nh c True by (subst bf_loop.simps) (simp add: Let_def)
    have "\<And>j. valid_indices lens j \<Longrightarrow> rank lens j order < space lens order"
      using ord(2) by (intro rank_lt_space) (auto simp: valid_indices_def)
    with top same have "\<And>j. valid_indices lens j \<Longrightarrow> rank lens idx order \<le> rank lens j order \<Longrightarrow> j = idx"
      by (metis Suc_eq_plus1 le_antisym less_Suc_eq_le)
    then have "{assemble_key bytes j | j. valid_indices lens j \<and>
                     rank lens idx order \<le> rank lens j order} = {?key}"
      using less.prems by auto
    with r top show ?thesis by (intro exI [of _ "[?key]"]) simp
  next
    case False
    with cv have r': "rank lens idx' order = rank lens idx order + 1"
      and v': "valid_indices lens idx'" by auto
    have m: "space lens order - rank lens idx' order < space lens order - rank lens idx order"
      using r' lt by simp
    from less.hyps [OF m v', of "tried @ [?key]"] obtain ks where
      k1: "bf_loop aes bytes lens order tgt clr idx' (tried @ [?key]) = Some (1, (tried @ [?key]) @ ks)"
      and k2: "length ks = space lens order - rank lens idx' order"
      and k3: "set ks = {assemble_key bytes j | j. valid_indices lens j \<and>
                     rank lens idx' order \<le> rank lens j order}"
      and k4: "(\<forall>a b. valid_indices lens a \<and> valid_indices lens b \<and>
             assemble_key bytes a = assemble_key bytes b \<longrightarrow> a = b) \<longrightarrow> distinct ks" by blast
    have r: "bf_loop aes bytes lens order tgt clr idx tried = Some (1, tried @ (?key # ks))"
      using nh c False k1 by (subst bf_loop.simps) (simp add: Let_def)
    have l: "length (?key # ks) = space lens order - rank lens idx order"
      using k2 r' lt by simp
    have "{j. valid_indices lens j \<and> rank lens idx order \<le> rank lens j order}
        = insert idx {j. valid_indices lens j \<and> rank lens idx' order \<le> rank lens j order}"
    proof -
      have "\<And>j. valid_indices lens j \<Longrightarrow> rank lens idx order \<le> rank lens j order \<Longrightarrow> j \<noteq> idx
          \<Longrightarrow> rank lens idx' order \<le> rank lens j order"
        using same r' by (metis Suc_eq_plus1 Suc_leI le_neq_implies_less)
      then show ?thesis using less.prems r' by auto
    qed
    then have "{assemble_key bytes j | j. valid_indices lens j \<and> rank lens idx order \<le> rank lens j order}
        = insert ?key {assemble_key bytes j | j. valid_indices lens j \<and> rank lens idx' order \<le> rank lens j order}"
      unfolding setcompr_eq_image by simp
    with k3 have s: "set (?key # ks) = {assemble_key bytes j | j. valid_indices lens j \<and>
                     rank lens idx order \<le> rank lens j order}" by simp
    have d: "(\<forall>a b. valid_indices lens a \<and> valid_indices lens b \<and>
             assemble_key bytes a = assemble_key bytes b \<longrightarrow> a = b) \<longrightarrow> distinct (?key # ks)"
    proof
      assume inj: "\<forall>a b. valid_indices lens a \<and> valid_indices lens b \<and>
             assemble_key bytes a = assemble_key bytes b \<longrightarrow> a = b"
      have "?key \<notin> set ks"
      proof
        assume "?key \<in> set ks"
        with k3 obtain j where j: "valid_indices lens j" "rank lens idx' order \<le> rank lens j order"
          "?key = assemble_key bytes j" by auto
        with inj less.prems have "j = idx" by metis
        with j(2) r' show False by simp
      qed
      with k4 inj show "distinct (?key # ks)" by simp
    qed
    from r l s d show ?thesis by blast
  qed
qed

lemma bf_loop_hit:
  assumes ord: "distinct order" "set order = {0..<16}"
    and g: "valid_indices lens g" "brute_force_attempt aes (assemble_key bytes g) clr tgt = 0"
  shows "valid_indices lens idx \<Longrightarrow> rank lens idx order \<le> rank lens g order \<Longrightarrow>
    \<exists>ks k. bf_loop aes bytes lens order tgt clr idx tried = Some (0, tried @ ks @ [k]) \<and>
         brute_force_attempt aes k clr tgt = 0 \<and>
         (\<forall>k'\<in>set ks. brute_force_attempt aes k' clr tgt \<noteq> 0) \<and>
         (\<forall>k'\<in>set (ks @ [k]). \<exists>j. valid_indices lens j \<and> k' = assemble_key bytes j) \<and>
         length ks \<le> rank lens g order - rank lens idx order"
proof (induction "rank lens g order - rank lens idx order" arbitrary: idx tried rule: less_induct)
  case less
  let ?key = "assemble_key bytes idx"
  have kv: "\<exists>j. valid_indices lens j \<and> ?key = assemble_key bytes j" using less.prems(1) by blast
  show ?case
  proof (cases "brute_force_attempt aes ?key clr tgt = 0")
    case True
    then have "bf_loop aes bytes lens order tgt clr idx tried = Some (0, tried @ [] @ [?key])"
      by (subst bf_loop.simps) (simp add: Let_def)
    with True kv show ?thesis
      by (intro exI [of _ "[]"] exI [of _ ?key]) simp
  next
    case False
    with g(2) have "idx \<noteq> g" by auto
    with valid_rank_eq [OF ord(2) less.prems(1) g(1)] less.prems(2)
    have lt: "rank lens idx order < rank lens g order" by (meson le_neq_implies_less)
    obtain idx' ovf where c: "carry lens idx order = (idx', ovf)" by (cases "carry lens idx order")
    note cv = carry_valid [OF ord less.prems(1) c]
    have "rank lens g order < space lens order"
      using g(1) ord(2) by (intro rank_lt_space) (auto simp: valid_indices_def)
    with lt cv have no: "\<not> ovf" by auto
    with cv have r': "rank lens idx' order = rank lens idx order + 1"
      and v': "valid_indices lens idx'" by auto
    have m: "rank lens g order - rank lens idx' order < rank lens g order - rank lens idx order"
      using r' lt by simp
    have le: "rank lens idx' order \<le> rank lens g order" using r' lt by simp
    from less.hyps [OF m v' le, of "tried @ [?key]"] obtain ks k where
      k1: "bf_loop aes bytes lens order tgt clr idx' (tried @ [?key]) = Some (0, (tried @ [?key]) @ ks @ [k])"
      and k2: "brute_force_attempt aes k clr tgt = 0"
      and k3: "\<forall>k'\<in>set ks. brute_force_attempt aes k' clr tgt \<noteq> 0"
      and k5: "\<forall>k'\<in>set (ks @ [k]). \<exists>j. valid_indices lens j \<and> k' = assemble_key bytes j"
      and k4: "length ks \<le> rank lens g order - rank lens idx' order" by blast
    have r: "bf_loop aes bytes lens order tgt clr idx tried = Some (0, tried @ (?key # ks) @ [k])"
      using False c no k1 by (subst bf_loop.simps) (simp add: Let_def)
    have "length (?key # ks) \<le> rank lens g order - rank lens idx order" using k4 r' lt by simp
    moreover have "\<forall>k'\<in>set (?key # ks). brute_force_attempt aes k' clr tgt \<noteq> 0"
      using k3 False by simp
    moreover have "\<forall>k'\<in>set ((?key # ks) @ [k]). \<exists>j. valid_indices lens j \<and> k' = assemble_key bytes j"
      using k5 kv by simp
    ultimately show ?thesis using r k2 by blast
  qed
qed

lemma set_qsort_insert: "set (qsort_insert cmp x ys) = insert x (set ys)"
  by (induction ys) auto

lemma mset_qsort_insert: "mset (qsort_insert cmp x ys) = add_mset x (mset ys)"
  by (induction ys) auto

lemma mset_qsort_r: "mset (qsort_r base compar arg) = mset base"
  unfolding qsort_r_def by (induction base) (auto simp: mset_qsort_insert)

lemma sorted_qsort_insert:
  "sorted_wrt (\<lambda>a b. val ! b \<le> val ! a) ys \<Longrightarrow>
   sorted_wrt (\<lambda>a b. val ! b \<le> val ! a) (qsort_insert (\<lambda>a b. cmp_zip a b val) x ys)"
  by (induction ys) (auto simp: set_qsort_insert cmp_zip_def split: if_splits)

lemma sorted_qsort_r:
  "sorted_wrt (\<lambda>a b. val ! b \<le> val ! a) (qsort_r base cmp_zip val)"
  unfolding qsort_r_def by (induction base) (auto intro: sorted_qsort_insert)

lemma bf_order_perm: "distinct (bf_order lens) \<and> set (bf_order lens) = {0..<16}"
proof -
  have m: "mset (bf_order lens) = mset [0..<16]" by (simp add: bf_order_def mset_qsort_r)
  then have "set (bf_order lens) = set [0..<16]" by (rule mset_eq_setD)
  moreover have "distinct (bf_order lens)" using m by (metis distinct_upt mset_eq_imp_distinct_iff)
  ultimately show ?thesis by simp
qed

lemma space_prod: "space lens ps = prod_list (map (nth lens) ps)"
  by (induction ps) auto

lemma space_bf_order:
  assumes "length lens = 16"
  shows "space lens (bf_order lens) = prod_list lens"
proof -
  have "mset (bf_order lens) = mset [0..<16]" by (simp add: bf_order_def mset_qsort_r)
  then have "mset (map (nth lens) (bf_order lens)) = mset (map (nth lens) [0..<16])" by simp
  then have "prod_list (map (nth lens) (bf_order lens)) = prod_list (map (nth lens) [0..<16])"
    by (metis prod_mset_prod_list)
  also have "map (nth lens) [0..<16] = lens" using assms by (metis map_nth)
  finally show ?thesis by (simp add: space_prod)
qed

lemma read_pools_pool_file:
  "length pools = n \<Longrightarrow> \<forall>p\<in>set pools. 1 \<le> length p \<and> length p \<le> 256 \<Longrightarrow>
   read_pools n (pool_file pools @ rest) = Some (map length pools, pools)"
proof (induction pools arbitrary: n)
  case Nil
  then show ?case by (simp add: pool_file_def)
next
  case (Cons p pools)
  then obtain m where n: "n = Suc m" "length pools = m" by (cases n) auto
  from Cons.prems have lp: "1 \<le> length p" "length p \<le> 256" by auto
  have len: "(if unat (word_of_nat (length p) :: byte) = 0 then 256 else unat (word_of_nat (length p) :: byte)) = length p"
  proof (cases "length p = 256")
    case True
    then show ?thesis by simp
  next
    case False
    with lp have "length p < 256" by simp
    then have "unat (word_of_nat (length p) :: byte) = length p"
      by (simp add: unat_of_nat)
    with lp show ?thesis by (cases p) auto
  qed
  have IH: "read_pools m (pool_file pools @ rest) = Some (map length pools, pools)"
    using Cons.IH [OF n(2)] Cons.prems(2) by simp
  have pf: "pool_file (p # pools) @ rest = word_of_nat (length p) # (p @ pool_file pools @ rest)"
    by (simp add: pool_file_def)
  show ?case unfolding n(1) pf read_pools.simps len using IH by simp
qed


lemma rank_zero: "\<forall>p\<in>set ps. idx ! p = 0 \<Longrightarrow> rank lens idx ps = 0"
  by (induction ps) auto

lemma assemble_key_nth: "i < 16 \<Longrightarrow> assemble_key bytes idx ! i = bytes ! i ! (idx ! i)"
  by (simp add: assemble_key_def)

lemma length_assemble_key: "length (assemble_key bytes idx) = 16"
  by (simp add: assemble_key_def)

lemma pick_indices:
  assumes "length k = 16" "\<forall>i<16. k ! i \<in> set (pools ! i)" and True: "length pools = 16"
  shows "\<exists>j. valid_indices (map length pools) j \<and> assemble_key pools j = k"
proof -
  have "\<forall>i<16. \<exists>n. n < length (pools ! i) \<and> pools ! i ! n = k ! i"
    using assms(2) by (simp add: in_set_conv_nth)
  then obtain f where f: "\<forall>i<16. f i < length (pools ! i) \<and> pools ! i ! (f i) = k ! i"
    by metis
  let ?j = "map f [0..<16]"
  have "valid_indices (map length pools) ?j" using f True by (simp add: valid_indices_def)
  moreover have "assemble_key pools ?j = k"
    using f assms(1) by (simp add: list_eq_iff_nth_eq assemble_key_def)
  ultimately show ?thesis by blast
qed


lemma valid_assemble_in_pool:
  assumes "length pools = 16" "valid_indices (map length pools) j" "i < 16"
  shows "assemble_key pools j ! i \<in> set (pools ! i)"
  using assms by (simp add: assemble_key_nth valid_indices_def)

lemma assemble_key_inj:
  assumes "length pools = 16" "\<forall>p\<in>set pools. distinct p"
    "valid_indices (map length pools) a" "valid_indices (map length pools) b"
    "assemble_key pools a = assemble_key pools b"
  shows "a = b"
proof -
  have "\<forall>i<16. a ! i = b ! i"
  proof (intro allI impI)
    fix i :: nat assume i: "i < 16"
    from assms(5) i have "pools ! i ! (a ! i) = pools ! i ! (b ! i)"
      by (metis assemble_key_nth)
    moreover have "distinct (pools ! i)" using assms(1,2) i by simp
    moreover have "a ! i < length (pools ! i)" "b ! i < length (pools ! i)"
      using assms(1,3,4) i by (simp_all add: valid_indices_def)
    ultimately show "a ! i = b ! i" by (simp add: nth_eq_iff_index_eq)
  qed
  then show ?thesis using assms(3,4) by (auto simp: valid_indices_def list_eq_iff_nth_eq)
qed

lemma brute_force_attempt_iff:
  "brute_force_attempt aes k d t = 0 \<longleftrightarrow> (\<forall>i<16. t ! i = aes k d ! i)"
proof -
  have "list_ex (\<lambda>i. t ! i \<noteq> aes k d ! i) [0..<16] \<longleftrightarrow> (\<exists>i<16. t ! i \<noteq> aes k d ! i)"
    unfolding list_ex_iff by auto
  then show ?thesis unfolding brute_force_attempt_def Let_def by auto
qed

lemma key_cipher_bytes:
  assumes "length k = 16" "length t = 16"
  shows "(\<forall>i<16. key_cipher k d ! i = key_cipher t d ! i) = (k = t)"
  using assms by (auto simp: key_cipher_def list_eq_iff_nth_eq)

lemma product_keys:
  assumes "length pools = 16"
  shows "{assemble_key pools j | j. valid_indices (map length pools) j}
       = {k. length k = 16 \<and> (\<forall>i<16. k ! i \<in> set (pools ! i))}"
  using pick_indices [OF _ _ assms] valid_assemble_in_pool [OF assms]
  by (auto simp: length_assemble_key)

lemma read_pools_Some:
  "read_pools n f = Some (lens, pools) \<Longrightarrow>
   length pools = n \<and> lens = map length pools \<and>
   (\<forall>p\<in>set pools. 1 \<le> length p \<and> length p \<le> 256)"
proof (induction n arbitrary: f lens pools)
  case 0
  then show ?case by simp
next
  case (Suc n)
  from Suc.prems obtain l r where f: "f = l # r" by (cases f) auto
  define len where "len = (if unat l = 0 then 256 else unat l)"
  have "unat l < 256" using unsigned_less [of l, where ?'a = nat] by simp
  then have b: "1 \<le> len" "len \<le> 256" by (auto simp: len_def)
  from Suc.prems f have ge: "\<not> length r < len"
    by (auto simp: len_def Let_def split: if_splits)
  with Suc.prems f obtain ls bs where
    rec: "read_pools n (drop len r) = Some (ls, bs)" and
    res: "lens = len # ls" "pools = take len r # bs"
    by (auto simp: len_def Let_def split: if_splits option.splits)
  from Suc.IH [OF rec] res ge b show ?case by auto
qed

lemma brute_force_parsed:
  assumes rp: "read_pools 16 b = Some (lens, pools)"
  shows "(\<exists>ks k. brute_force aes (Some b) tk = Some (0, ks @ [k]) \<and>
            brute_force_attempt aes k (replicate 16 0) (aes tk (replicate 16 0)) = 0 \<and>
            (\<forall>k'\<in>set ks. brute_force_attempt aes k' (replicate 16 0) (aes tk (replicate 16 0)) \<noteq> 0) \<and>
            set (ks @ [k]) \<subseteq> {k. length k = 16 \<and> (\<forall>i<16. k ! i \<in> set (pools ! i))} \<and>
            length (ks @ [k]) \<le> prod_list lens) \<or>
         (\<exists>ks. brute_force aes (Some b) tk = Some (1, ks) \<and>
            (\<forall>k'\<in>set ks. brute_force_attempt aes k' (replicate 16 0) (aes tk (replicate 16 0)) \<noteq> 0) \<and>
            set ks = {k. length k = 16 \<and> (\<forall>i<16. k ! i \<in> set (pools ! i))} \<and>
            length ks = prod_list lens \<and>
            ((\<forall>p\<in>set pools. distinct p) \<longrightarrow> distinct ks))"
proof -
  let ?clr = "replicate 16 (0::byte)"
  let ?tgt = "aes tk ?clr"
  let ?ord = "bf_order lens"
  let ?z = "replicate 16 (0::nat)"
  let ?P = "{k. length k = 16 \<and> (\<forall>i<16. k ! i \<in> set (pools ! i))}"
  from read_pools_Some [OF rp] have wf: "length pools = 16" "lens = map length pools"
    "\<forall>p\<in>set pools. 1 \<le> length p \<and> length p \<le> 256" by auto
  have bf: "brute_force aes (Some b) tk = bf_loop aes pools lens ?ord ?tgt ?clr ?z []"
    by (simp add: brute_force_def rp Let_def)
  have ord: "distinct ?ord" "set ?ord = {0..<16}" using bf_order_perm by auto
  have "\<forall>i<16. 0 < length (pools ! i)"
  proof (intro allI impI)
    fix i :: nat assume "i < 16"
    with wf(1) have "pools ! i \<in> set pools" by simp
    with wf(3) show "0 < length (pools ! i)" by fastforce
  qed
  then have vz: "valid_indices lens ?z" using wf(1,2) by (simp add: valid_indices_def)
  have rz: "rank lens ?z ?ord = 0" using ord(2) by (intro rank_zero) simp
  have sp: "space lens ?ord = prod_list lens" using wf(1,2) by (intro space_bf_order) simp
  have pk: "{assemble_key pools j | j. valid_indices lens j} = ?P"
    unfolding wf(2) using wf(1) by (rule product_keys)
  show ?thesis
  proof (cases "\<exists>g. valid_indices lens g \<and>
      brute_force_attempt aes (assemble_key pools g) ?clr ?tgt = 0")
    case True
    then obtain g where g: "valid_indices lens g"
      "brute_force_attempt aes (assemble_key pools g) ?clr ?tgt = 0" by blast
    from bf_loop_hit [OF ord g vz, of "[]"] rz obtain ks k where
      r: "bf_loop aes pools lens ?ord ?tgt ?clr ?z [] = Some (0, ks @ [k])"
      and h: "brute_force_attempt aes k ?clr ?tgt = 0"
      and n: "\<forall>k'\<in>set ks. brute_force_attempt aes k' ?clr ?tgt \<noteq> 0"
      and v: "\<forall>k'\<in>set (ks @ [k]). \<exists>j. valid_indices lens j \<and> k' = assemble_key pools j"
      and l: "length ks \<le> rank lens g ?ord" by auto
    from v pk have sub: "set (ks @ [k]) \<subseteq> ?P" by blast
    have "rank lens g ?ord < space lens ?ord"
      using g(1) ord(2) by (intro rank_lt_space) (auto simp: valid_indices_def)
    with l sp have len: "length (ks @ [k]) \<le> prod_list lens" by simp
    from r h n sub len bf show ?thesis by auto
  next
    case False
    then have nohit: "\<forall>j. valid_indices lens j \<longrightarrow>
       brute_force_attempt aes (assemble_key pools j) ?clr ?tgt \<noteq> 0" by blast
    from bf_loop_miss [OF ord nohit vz, of "[]"] rz sp obtain ks where
      r: "bf_loop aes pools lens ?ord ?tgt ?clr ?z [] = Some (1, ks)"
      and l: "length ks = prod_list lens"
      and s: "set ks = {assemble_key pools j | j. valid_indices lens j}"
      and d: "(\<forall>a b. valid_indices lens a \<and> valid_indices lens b \<and>
             assemble_key pools a = assemble_key pools b \<longrightarrow> a = b) \<longrightarrow> distinct ks" by auto
    from s nohit have nh: "\<forall>k'\<in>set ks. brute_force_attempt aes k' ?clr ?tgt \<noteq> 0" by auto
    have dd: "(\<forall>p\<in>set pools. distinct p) \<longrightarrow> distinct ks"
    proof
      assume dp: "\<forall>p\<in>set pools. distinct p"
      have "\<forall>a b. valid_indices lens a \<and> valid_indices lens b \<and>
             assemble_key pools a = assemble_key pools b \<longrightarrow> a = b"
        unfolding wf(2) using assemble_key_inj [OF wf(1) dp] by blast
      with d show "distinct ks" by blast
    qed
    from r l s pk nh dd bf show ?thesis by auto
  qed
qed

lemma brute_force_result:
  "\<exists>rc ks. brute_force aes (Some b) tk = Some (rc, ks) \<and> (rc = 0 \<or> rc = 1) \<and>
     (rc = 0) = (ks \<noteq> [] \<and>
        brute_force_attempt aes (last ks) (replicate 16 0) (aes tk (replicate 16 0)) = 0) \<and>
     (\<forall>lens pools. read_pools 16 b = Some (lens, pools) \<and> rc = 1 \<longrightarrow>
        set ks = {k. length k = 16 \<and> (\<forall>i<16. k ! i \<in> set (pools ! i))} \<and>
        length ks = prod_list lens \<and>
        (\<forall>k\<in>set ks. brute_force_attempt aes k (replicate 16 0) (aes tk (replicate 16 0)) \<noteq> 0))"
proof (cases "read_pools 16 b")
  case None
  then have "brute_force aes (Some b) tk = Some (1, [])" by (simp add: brute_force_def Let_def)
  with None show ?thesis by simp
next
  case (Some r)
  then obtain lens pools where rp: "read_pools 16 b = Some (lens, pools)" by (cases r) auto
  from brute_force_parsed [OF this, of aes tk] show ?thesis
  proof
    assume "\<exists>ks k. brute_force aes (Some b) tk = Some (0, ks @ [k]) \<and>
            brute_force_attempt aes k (replicate 16 0) (aes tk (replicate 16 0)) = 0 \<and>
            (\<forall>k'\<in>set ks. brute_force_attempt aes k' (replicate 16 0) (aes tk (replicate 16 0)) \<noteq> 0) \<and>
            set (ks @ [k]) \<subseteq> {k. length k = 16 \<and> (\<forall>i<16. k ! i \<in> set (pools ! i))} \<and>
            length (ks @ [k]) \<le> prod_list lens"
    then obtain ks k where "brute_force aes (Some b) tk = Some (0, ks @ [k])"
      "brute_force_attempt aes k (replicate 16 0) (aes tk (replicate 16 0)) = 0" by blast
    then show ?thesis by simp
  next
    assume "\<exists>ks. brute_force aes (Some b) tk = Some (1, ks) \<and>
            (\<forall>k'\<in>set ks. brute_force_attempt aes k' (replicate 16 0) (aes tk (replicate 16 0)) \<noteq> 0) \<and>
            set ks = {k. length k = 16 \<and> (\<forall>i<16. k ! i \<in> set (pools ! i))} \<and>
            length ks = prod_list lens \<and>
            ((\<forall>p\<in>set pools. distinct p) \<longrightarrow> distinct ks)"
    then obtain ks where k: "brute_force aes (Some b) tk = Some (1, ks)"
      "\<forall>k'\<in>set ks. brute_force_attempt aes k' (replicate 16 0) (aes tk (replicate 16 0)) \<noteq> 0"
      "set ks = {k. length k = 16 \<and> (\<forall>i<16. k ! i \<in> set (pools ! i))}"
      "length ks = prod_list lens"
      by blast
    have "ks \<noteq> [] \<longrightarrow>
        brute_force_attempt aes (last ks) (replicate 16 0) (aes tk (replicate 16 0)) \<noteq> 0"
      using k(2) by simp
    with k rp show ?thesis by auto
  qed
qed

lemma brute_force_outcome:
  assumes wf: "length pools = 16" "\<forall>p\<in>set pools. 1 \<le> length p \<and> length p \<le> 256 \<and> distinct p"
    and tk: "length target_key = 16"
    and match: "\<forall>k. length k = 16 \<and> (\<forall>i<16. k ! i \<in> set (pools ! i)) \<longrightarrow>
       (\<forall>i<16. aes k (replicate 16 0) ! i = aes target_key (replicate 16 0) ! i) =
       (k = target_key)"
  shows "((\<forall>i<16. target_key ! i \<in> set (pools ! i)) \<longrightarrow>
           (\<exists>ks. brute_force aes (Some (pool_file pools)) target_key = Some (0, ks @ [target_key]) \<and>
                 target_key \<notin> set ks \<and>
                 length (ks @ [target_key]) \<le> prod_list (map length pools))) \<and>
         ((\<exists>i<16. target_key ! i \<notin> set (pools ! i)) \<longrightarrow>
           (\<exists>ks. brute_force aes (Some (pool_file pools)) target_key = Some (1, ks) \<and>
                 length ks = prod_list (map length pools) \<and> distinct ks \<and>
                 set ks = {k. length k = 16 \<and> (\<forall>i<16. k ! i \<in> set (pools ! i))}))"
proof -
  let ?P = "{k. length k = 16 \<and> (\<forall>i<16. k ! i \<in> set (pools ! i))}"
  let ?hit = "\<lambda>k. brute_force_attempt aes k (replicate 16 0) (aes target_key (replicate 16 0)) = 0"
  have wf': "\<forall>p\<in>set pools. 1 \<le> length p \<and> length p \<le> 256" using wf(2) by blast
  have rp: "read_pools 16 (pool_file pools) = Some (map length pools, pools)"
    using read_pools_pool_file [of pools 16 "[]"] wf(1) wf' by simp
  have m: "?hit k = (k = target_key)" if "k \<in> ?P" for k
  proof -
    have "?hit k = (\<forall>i<16. aes k (replicate 16 0) ! i = aes target_key (replicate 16 0) ! i)"
      unfolding brute_force_attempt_iff by auto
    with match that show ?thesis by simp
  qed
  have dp: "\<forall>p\<in>set pools. distinct p" using wf(2) by blast
  note d = brute_force_parsed [OF rp, of aes target_key]
  have hit: "(\<forall>i<16. target_key ! i \<in> set (pools ! i)) \<longrightarrow>
           (\<exists>ks. brute_force aes (Some (pool_file pools)) target_key = Some (0, ks @ [target_key]) \<and>
                 target_key \<notin> set ks \<and>
                 length (ks @ [target_key]) \<le> prod_list (map length pools))"
  proof
    assume "\<forall>i<16. target_key ! i \<in> set (pools ! i)"
    with tk have tp: "target_key \<in> ?P" by simp
    with m have th: "?hit target_key" by simp
    from d show "\<exists>ks. brute_force aes (Some (pool_file pools)) target_key = Some (0, ks @ [target_key]) \<and>
                 target_key \<notin> set ks \<and>
                 length (ks @ [target_key]) \<le> prod_list (map length pools)"
    proof
      assume "\<exists>ks k. brute_force aes (Some (pool_file pools)) target_key = Some (0, ks @ [k]) \<and>
            ?hit k \<and> (\<forall>k'\<in>set ks. \<not> ?hit k') \<and> set (ks @ [k]) \<subseteq> ?P \<and>
            length (ks @ [k]) \<le> prod_list (map length pools)"
      then obtain ks k where r: "brute_force aes (Some (pool_file pools)) target_key = Some (0, ks @ [k])"
        and h: "?hit k" and n: "\<forall>k'\<in>set ks. \<not> ?hit k'" and s: "set (ks @ [k]) \<subseteq> ?P"
        and l: "length (ks @ [k]) \<le> prod_list (map length pools)" by blast
      from s have "k \<in> ?P" by simp
      with m h have k: "k = target_key" by blast
      from n th have "target_key \<notin> set ks" by blast
      with r l k show ?thesis by auto
    next
      assume "\<exists>ks. brute_force aes (Some (pool_file pools)) target_key = Some (1, ks) \<and>
            (\<forall>k'\<in>set ks. \<not> ?hit k') \<and> set ks = ?P \<and>
            length ks = prod_list (map length pools) \<and>
            ((\<forall>p\<in>set pools. distinct p) \<longrightarrow> distinct ks)"
      then obtain ks where "\<forall>k'\<in>set ks. \<not> ?hit k'" "set ks = ?P" by blast
      with tp th show ?thesis by blast
    qed
  qed
  have miss: "(\<exists>i<16. target_key ! i \<notin> set (pools ! i)) \<longrightarrow>
           (\<exists>ks. brute_force aes (Some (pool_file pools)) target_key = Some (1, ks) \<and>
                 length ks = prod_list (map length pools) \<and> distinct ks \<and>
                 set ks = ?P)"
  proof
    assume "\<exists>i<16. target_key ! i \<notin> set (pools ! i)"
    then have tn: "target_key \<notin> ?P" by blast
    from d show "\<exists>ks. brute_force aes (Some (pool_file pools)) target_key = Some (1, ks) \<and>
                 length ks = prod_list (map length pools) \<and> distinct ks \<and> set ks = ?P"
    proof
      assume "\<exists>ks k. brute_force aes (Some (pool_file pools)) target_key = Some (0, ks @ [k]) \<and>
            ?hit k \<and> (\<forall>k'\<in>set ks. \<not> ?hit k') \<and> set (ks @ [k]) \<subseteq> ?P \<and>
            length (ks @ [k]) \<le> prod_list (map length pools)"
      then obtain ks k where h: "?hit k" and s: "set (ks @ [k]) \<subseteq> ?P" by blast
      from s have kp: "k \<in> ?P" by simp
      with m h have "k = target_key" by blast
      with kp tn show ?thesis by blast
    next
      assume "\<exists>ks. brute_force aes (Some (pool_file pools)) target_key = Some (1, ks) \<and>
            (\<forall>k'\<in>set ks. \<not> ?hit k') \<and> set ks = ?P \<and>
            length ks = prod_list (map length pools) \<and>
            ((\<forall>p\<in>set pools. distinct p) \<longrightarrow> distinct ks)"
      with dp show ?thesis by blast
    qed
  qed
  from hit miss show ?thesis by blast
qed

lemma bf_small_example:
  "map_option fst (brute_force key_cipher
      (Some (pool_file ([[0, 1], [5, 6, 7], [8, 9]] @ replicate 13 [0])))
      (take 16 ([1, 6, 9] @ replicate 13 0))) = Some 0 \<and>
   map_option fst (brute_force key_cipher
      (Some (pool_file ([[0, 1], [5, 6, 7], [8, 9]] @ replicate 13 [0])))
      (take 16 ([4, 6, 9] @ replicate 13 0))) = Some 1"
  by code_simp

lemma bf_order_sorted:
  assumes "length lens = 16"
  shows "sorted_wrt (\<lambda>a b. lens ! b \<le> lens ! a) (bf_order lens)"
proof -
  let ?val = "map real lens"
  have s: "sorted_wrt (\<lambda>a b. ?val ! b \<le> ?val ! a) (bf_order lens)"
    unfolding bf_order_def by (rule sorted_qsort_r)
  have "\<forall>a\<in>set (bf_order lens). a < 16" using bf_order_perm by simp
  then have "\<forall>a\<in>set (bf_order lens). \<forall>b\<in>set (bf_order lens).
      (?val ! b \<le> ?val ! a) = (lens ! b \<le> lens ! a)" using assms by simp
  with s show ?thesis by (metis (mono_tags, lifting) sorted_wrt_mono_rel)
qed

lemma length_bf_order: "length (bf_order lens) = 16"
proof -
  have "mset (bf_order lens) = mset [0..<16]" by (simp add: bf_order_def mset_qsort_r)
  then have "length (bf_order lens) = length [0..<16]" by (rule mset_eq_length)
  then show ?thesis by simp
qed

lemma bf_order_example:
  "bf_order [1, 2, 3, 4, 5, 6, 7, 8, 9, 10, 11, 12, 13, 14, 15, 16]
     = [15, 14, 13, 12, 11, 10, 9, 8, 7, 6, 5, 4, 3, 2, 1, 0]"
  by (simp add: bf_order_def qsort_r_def cmp_zip_def upt_rec)

lemma qsort_insert_stable:
  "sorted_wrt (\<lambda>a b. val ! b < val ! a \<or> (val ! a = val ! b \<and> a < b)) ys \<Longrightarrow>
   \<forall>y\<in>set ys. x < y \<Longrightarrow>
   sorted_wrt (\<lambda>a b. val ! b < val ! a \<or> (val ! a = val ! b \<and> a < b))
     (qsort_insert (\<lambda>a b. cmp_zip a b val) x ys)"
proof (induction ys)
  case Nil
  then show ?case by simp
next
  case (Cons y ys)
  show ?case
  proof (cases "cmp_zip x y val \<le> 0")
    case True
    then have xy: "val ! y \<le> val ! x" by (simp add: cmp_zip_def split: if_splits)
    have "\<forall>z\<in>set (y # ys). val ! z < val ! x \<or> (val ! x = val ! z \<and> x < z)"
    proof
      fix z assume z: "z \<in> set (y # ys)"
      then have "val ! z \<le> val ! y" using Cons.prems(1) by auto
      with xy have "val ! z \<le> val ! x" by simp
      moreover have "x < z" using z Cons.prems(2) by auto
      ultimately show "val ! z < val ! x \<or> (val ! x = val ! z \<and> x < z)" by auto
    qed
    with True Cons.prems(1) show ?thesis by simp
  next
    case False
    then have yx: "val ! x < val ! y" by (simp add: cmp_zip_def split: if_splits)
    have IH: "sorted_wrt (\<lambda>a b. val ! b < val ! a \<or> (val ! a = val ! b \<and> a < b))
        (qsort_insert (\<lambda>a b. cmp_zip a b val) x ys)"
      using Cons.IH Cons.prems by simp
    have "\<forall>w\<in>set (qsort_insert (\<lambda>a b. cmp_zip a b val) x ys).
        val ! w < val ! y \<or> (val ! y = val ! w \<and> y < w)"
      using yx Cons.prems(1) by (auto simp: set_qsort_insert)
    with False IH show ?thesis by simp
  qed
qed

lemma qsort_r_stable:
  "sorted_wrt (<) xs \<Longrightarrow>
   sorted_wrt (\<lambda>a b. val ! b < val ! a \<or> (val ! a = val ! b \<and> a < b)) (qsort_r xs cmp_zip val)"
proof (induction xs)
  case Nil
  then show ?case by (simp add: qsort_r_def)
next
  case (Cons x xs)
  have s: "set (qsort_r xs cmp_zip val) = set xs"
    using mset_qsort_r [of xs cmp_zip val] by (metis set_mset_mset)
  have "\<forall>y\<in>set (qsort_r xs cmp_zip val). x < y" using Cons.prems s by simp
  moreover have "sorted_wrt (\<lambda>a b. val ! b < val ! a \<or> (val ! a = val ! b \<and> a < b))
      (qsort_r xs cmp_zip val)" using Cons by simp
  ultimately have "sorted_wrt (\<lambda>a b. val ! b < val ! a \<or> (val ! a = val ! b \<and> a < b))
      (qsort_insert (\<lambda>a b. cmp_zip a b val) x (qsort_r xs cmp_zip val))"
    by (intro qsort_insert_stable)
  then show ?case by (simp add: qsort_r_def)
qed

lemma bf_order_stable_sorted:
  assumes "length lens = 16"
  shows "sorted_wrt (\<lambda>a b. lens ! b < lens ! a \<or> (lens ! a = lens ! b \<and> a < b)) (bf_order lens)"
proof -
  let ?val = "map real lens"
  have "sorted_wrt (<) [0..<16::nat]" by (simp add: sorted_wrt_upt del: upt_Suc)
  then have s: "sorted_wrt (\<lambda>a b. ?val ! b < ?val ! a \<or> (?val ! a = ?val ! b \<and> a < b)) (bf_order lens)"
    unfolding bf_order_def by (rule qsort_r_stable)
  have "\<forall>a\<in>set (bf_order lens). a < 16" using bf_order_perm by simp
  then have "\<forall>a\<in>set (bf_order lens). \<forall>b\<in>set (bf_order lens).
      (?val ! b < ?val ! a \<or> (?val ! a = ?val ! b \<and> a < b))
        = (lens ! b < lens ! a \<or> (lens ! a = lens ! b \<and> a < b))" using assms by simp
  with s show ?thesis by (metis (mono_tags, lifting) sorted_wrt_mono_rel)
qed

lemma bf_order_ties_example:
  "bf_order [2, 3, 2, 3, 1, 1, 1, 1, 1, 1, 1, 1, 1, 1, 1, 1]
     = [1, 3, 0, 2, 4, 5, 6, 7, 8, 9, 10, 11, 12, 13, 14, 15]"
  by (simp add: bf_order_def qsort_r_def cmp_zip_def upt_rec)

section \<open>The measurement loop\<close>


lemma generate_retry_first:
  "\<not> tally_threshold st <s rdtsc_ticks e (clock st + k) \<Longrightarrow>
   \<forall>j<k. tally_threshold st <s rdtsc_ticks e (clock st + j) \<Longrightarrow>
   generate_retry e st = Some (rdtsc_ticks e (clock st + k), st\<lparr>clock := clock st + k + 1\<rparr>)"
proof (induction k arbitrary: st)
  case 0
  then show ?case by (subst generate_retry.simps) (simp add: run_def)
next
  case (Suc k)
  let ?st = "st\<lparr>clock := clock st + 1\<rparr>"
  from Suc.prems(2) have ex: "tally_threshold st <s rdtsc_ticks e (clock st)"
    by (metis add.right_neutral zero_less_Suc)
  have a: "\<not> tally_threshold ?st <s rdtsc_ticks e (clock ?st + k)" using Suc.prems(1) by simp
  have b: "\<forall>j<k. tally_threshold ?st <s rdtsc_ticks e (clock ?st + j)"
  proof (intro allI impI)
    fix j assume "j < k"
    then have "Suc j < Suc k" by simp
    with Suc.prems(2) have "tally_threshold st <s rdtsc_ticks e (clock st + Suc j)" by blast
    then show "tally_threshold ?st <s rdtsc_ticks e (clock ?st + j)" by simp
  qed
  have "generate_retry e st = generate_retry e ?st"
    using ex by (subst generate_retry.simps) (simp add: run_def)
  also note Suc.IH [OF a b]
  finally show ?case by simp
qed


lemma generate_retry_Some:
  assumes "generate_retry e st = Some r"
  shows "\<exists>k. \<not> tally_threshold st <s rdtsc_ticks e (clock st + k) \<and>
             r = (rdtsc_ticks e (clock st + k), st\<lparr>clock := clock st + k + 1\<rparr>)"
  using assms
proof (induction rule: generate_retry.raw_induct [rotated 1, consumes 1])
  case (1 f e st r)
  show ?case
  proof (cases "tally_threshold st <s rdtsc_ticks e (clock st)")
    case False
    with 1(2) have "r = (rdtsc_ticks e (clock st + 0), st\<lparr>clock := clock st + 0 + 1\<rparr>)"
      by (simp add: run_def)
    with False show ?thesis by (metis add.right_neutral)
  next
    case True
    let ?st = "st\<lparr>clock := clock st + 1\<rparr>"
    from True 1(2) have "f e ?st = Some r" by (simp add: run_def)
    from 1(1) [OF this] obtain k where
      k: "\<not> tally_threshold ?st <s rdtsc_ticks e (clock ?st + k)"
         "r = (rdtsc_ticks e (clock ?st + k), ?st\<lparr>clock := clock ?st + k + 1\<rparr>)" by blast
    have "\<not> tally_threshold st <s rdtsc_ticks e (clock st + Suc k)" using k(1) by simp
    moreover have "r = (rdtsc_ticks e (clock st + Suc k), st\<lparr>clock := clock st + Suc k + 1\<rparr>)"
      using k(2) by simp
    ultimately show ?thesis by blast
  qed
qed

lemma generate_retry_None_iff:
  "generate_retry e st = None \<longleftrightarrow> (\<forall>k. tally_threshold st <s rdtsc_ticks e (clock st + k))"
proof
  assume n: "generate_retry e st = None"
  show "\<forall>k. tally_threshold st <s rdtsc_ticks e (clock st + k)"
  proof (rule ccontr)
    assume "\<not> (\<forall>k. tally_threshold st <s rdtsc_ticks e (clock st + k))"
    then have ex: "\<exists>k. \<not> tally_threshold st <s rdtsc_ticks e (clock st + k)" by simp
    define k where "k = (LEAST k. \<not> tally_threshold st <s rdtsc_ticks e (clock st + k))"
    have a: "\<not> tally_threshold st <s rdtsc_ticks e (clock st + k)"
      unfolding k_def using ex by (rule LeastI_ex)
    have b: "\<forall>j<k. tally_threshold st <s rdtsc_ticks e (clock st + j)"
      unfolding k_def using not_less_Least by blast
    from generate_retry_first [OF a b] n show False by simp
  qed
next
  assume "\<forall>k. tally_threshold st <s rdtsc_ticks e (clock st + k)"
  with generate_retry_Some [of e st] show "generate_retry e st = None"
    by (cases "generate_retry e st") auto
qed

lemma generate_None_iff:
  "generate e st tly = None \<longleftrightarrow> (\<forall>k. tally_threshold st <s rdtsc_ticks e (clock st + k))"
proof -
  have "generate e st tly = None \<longleftrightarrow> generate_retry e (st\<lparr>rand_pos := rand_pos st + 16\<rparr>) = None"
    by (simp add: generate_def rand_bytes_def split: option.splits)
  then show ?thesis by (simp add: generate_retry_None_iff)
qed

lemma generate_Some:
  assumes "generate e st tly = Some (data, t, st', tly')"
  shows "\<exists>k. \<not> tally_threshold st <s rdtsc_ticks e (clock st + k) \<and>
             t = rdtsc_ticks e (clock st + k) \<and>
             st' = st\<lparr>rand_pos := rand_pos st + 16, clock := clock st + k + 1\<rparr> \<and>
             tly' = tly \<and> data = map (\<lambda>i. rand e (rand_pos st + i)) [0..<16]"
proof -
  let ?st = "st\<lparr>rand_pos := rand_pos st + 16\<rparr>"
  from assms have r: "generate_retry e ?st = Some (t, st')" and t: "tly' = tly"
    and d: "data = map (\<lambda>i. rand e (rand_pos st + i)) [0..<16]"
    by (auto simp: generate_def rand_bytes_def split: option.splits)
  from generate_retry_Some [OF r] t d show ?thesis by auto
qed

lemma generate_n_Some:
  "generate_n e n data st tly = Some (data', st', tly') \<Longrightarrow>
   tly' = tly \<and> total_runs st' = total_runs st \<and> total_ticks st' = total_ticks st \<and>
   tally_threshold st' = tally_threshold st \<and> d_arg st' = d_arg st"
proof (induction n arbitrary: data st)
  case 0
  then show ?case by simp
next
  case (Suc n)
  from Suc.prems obtain d t s1 t1 where g: "generate e st tly = Some (d, t, s1, t1)"
    and r: "generate_n e n d s1 t1 = Some (data', st', tly')"
    by (auto split: option.splits)
  from generate_Some [OF g] have "t1 = tly" "total_runs s1 = total_runs st"
    "total_ticks s1 = total_ticks st" "tally_threshold s1 = tally_threshold st"
    "d_arg s1 = d_arg st" by auto
  with Suc.IH [of d s1] r show ?case by simp
qed

lemma study_key_Some:
  assumes "study_key e st tly means data test_key gen_key runs = Some (k, d, st', tly', means')"
  shows "tly' = zero_tally \<and> total_runs st' = 0 \<and> total_ticks st' = 0 \<and> means' = means \<and>
         tally_threshold st' = tally_threshold st \<and> d_arg st' = d_arg st"
proof -
  obtain tk s1 where p: "(if gen_key then rand_bytes e 16 st else (test_key, st)) = (tk, s1)"
    by (cases "if gen_key then rand_bytes e 16 st else (test_key, st)")
  then have s1: "tally_threshold s1 = tally_threshold st" "d_arg s1 = d_arg st"
    by (auto simp: rand_bytes_def split: if_splits)
  let ?s2 = "s1\<lparr>total_ticks := 0, total_runs := 0\<rparr>"
  from assms p have g: "generate_n e (nat (sint runs)) data ?s2 zero_tally = Some (d, st', tly')"
    and m: "means' = calc_means tly' means"
    by (auto simp: study_key_def Let_def split: option.splits if_splits)
  from generate_n_Some [OF g] s1 m show ?thesis by (simp add: calc_means_def)
qed

lemma generate_quiet:
  assumes "\<not> tally_threshold st <s 100"
  shows "generate quiet_env st tly =
     Some (replicate 16 0, 100, st\<lparr>rand_pos := rand_pos st + 16, clock := clock st + 1\<rparr>, tly)"
proof -
  let ?st = "st\<lparr>rand_pos := rand_pos st + 16\<rparr>"
  have a: "\<not> tally_threshold ?st <s rdtsc_ticks quiet_env (clock ?st + 0)"
    using assms by (simp add: quiet_env_def)
  have b: "\<forall>j<0. tally_threshold ?st <s rdtsc_ticks quiet_env (clock ?st + j)" by simp
  have m: "map (\<lambda>i. rand quiet_env (rand_pos st + i)) [0..<16] = replicate 16 0"
    by (simp add: quiet_env_def list_eq_iff_nth_eq)
  show ?thesis
    unfolding generate_def rand_bytes_def using generate_retry_first [OF a b] m
    by (simp add: quiet_env_def)
qed

lemma generate_n_effects:
  "generate_n e n data st tly = Some (data', st', tly') \<Longrightarrow>
   rand_pos st' = rand_pos st + 16 * n \<and> clock st + n \<le> clock st'"
proof (induction n arbitrary: data st)
  case 0
  then show ?case by simp
next
  case (Suc n)
  from Suc.prems obtain d t s1 t1 where g: "generate e st tly = Some (d, t, s1, t1)"
    and r: "generate_n e n d s1 t1 = Some (data', st', tly')"
    by (auto split: option.splits)
  from generate_Some [OF g] have t1: "t1 = tly" and "rand_pos s1 = rand_pos st + 16"
    "clock st + 1 \<le> clock s1" by auto
  with Suc.IH [of d s1] r show ?case by simp
qed

lemma study_key_effects:
  assumes "study_key e st tly means data test_key gen_key runs = Some (k, d, st', tly', means')"
  shows "rand_pos st' = rand_pos st + (if gen_key then 16 else 0) + 16 * nat (sint runs) \<and>
         clock st + nat (sint runs) \<le> clock st' \<and>
         k = (if gen_key then map (\<lambda>i. rand e (rand_pos st + i)) [0..<16] else test_key)"
proof -
  obtain tk s1 where p: "(if gen_key then rand_bytes e 16 st else (test_key, st)) = (tk, s1)"
    by (cases "if gen_key then rand_bytes e 16 st else (test_key, st)")
  then have s1: "rand_pos s1 = rand_pos st + (if gen_key then 16 else 0)" "clock s1 = clock st"
    "tk = (if gen_key then map (\<lambda>i. rand e (rand_pos st + i)) [0..<16] else test_key)"
    by (auto simp: rand_bytes_def split: if_splits)
  let ?s2 = "s1\<lparr>total_ticks := 0, total_runs := 0\<rparr>"
  from assms p have g: "generate_n e (nat (sint runs)) data ?s2 zero_tally = Some (d, st', tly')"
    and k: "k = tk"
    by (auto simp: study_key_def Let_def split: option.splits if_splits)
  from generate_n_effects [OF g] s1 k show ?thesis by simp
qed

section \<open>The tallying measurement loop\<close>

lemma sum_row_update:
  fixes f :: "tally \<Rightarrow> 'a::ab_group_add"
  assumes "b0 < 256" "length r = 256"
  shows "(\<Sum>b<256. f (r[b0 := c] ! b)) = (\<Sum>b<256. f (r ! b)) - f (r ! b0) + f c"
proof -
  have m: "b0 \<in> {..<256::nat}" using assms(1) by simp
  have "(\<Sum>b<256. f (r[b0 := c] ! b))
      = f (r[b0 := c] ! b0) + (\<Sum>b\<in>{..<256} - {b0}. f (r[b0 := c] ! b))"
    using m by (intro sum.remove) simp_all
  also have "(\<Sum>b\<in>{..<256} - {b0}. f (r[b0 := c] ! b)) = (\<Sum>b\<in>{..<256} - {b0}. f (r ! b))"
    by (rule sum.cong) simp_all
  also have "f (r[b0 := c] ! b0) = f c" using assms by simp
  finally have a: "(\<Sum>b<256. f (r[b0 := c] ! b)) = f c + (\<Sum>b\<in>{..<256} - {b0}. f (r ! b))" .
  have "(\<Sum>b<256. f (r ! b)) = f (r ! b0) + (\<Sum>b\<in>{..<256} - {b0}. f (r ! b))"
    using m by (intro sum.remove) simp_all
  with a show ?thesis by simp
qed

lemma sint_num_succ:
  fixes x :: "64 word"
  assumes "0 \<le> sint x" "sint x < 2 ^ 31"
  shows "sint (x + 1) = sint x + 1"
proof -
  have "signed_take_bit 63 (sint x + 1) = sint x + 1"
    using assms by (intro signed_take_bit_int_eq_self) simp_all
  then show ?thesis by (simp add: sint_word_ariths)
qed

lemma sint_runs_succ:
  fixes x :: "32 word"
  assumes "0 \<le> sint x" "sint x + 1 < 2 ^ 31"
  shows "sint (x + 1) = sint x + 1"
proof -
  have "signed_take_bit 31 (sint x + 1) = sint x + 1"
    using assms by (intro signed_take_bit_int_eq_self) simp_all
  then show ?thesis by (simp add: sint_word_ariths)
qed

lemma sint_ticks_add:
  fixes tt :: "64 word" and d :: "32 word"
  assumes "\<bar>sint tt\<bar> \<le> int n * 2 ^ 31" "n < 2 ^ 31"
  shows "sint (tt + scast d) = sint tt + sint d"
    and "\<bar>sint tt + sint d\<bar> \<le> int (Suc n) * 2 ^ 31"
proof -
  have d: "- (2 ^ 31) \<le> sint d" "sint d < 2 ^ 31"
    using sint_ge [of d] sint_lt [of d] by simp_all
  with assms(1) show b: "\<bar>sint tt + sint d\<bar> \<le> int (Suc n) * 2 ^ 31"
    by (simp add: algebra_simps abs_le_iff)
  have "int (Suc n) \<le> 2 ^ 31" using assms(2) by simp
  then have "int (Suc n) * 2 ^ 31 \<le> 2 ^ 31 * 2 ^ 31" by (intro mult_right_mono) simp_all
  with b have "\<bar>sint tt + sint d\<bar> \<le> 2 ^ 62" by simp
  then have "signed_take_bit 63 (sint tt + sint d) = sint tt + sint d"
    by (intro signed_take_bit_int_eq_self) (simp_all add: abs_le_iff)
  moreover have "sint (scast d :: 64 word) = sint d"
  proof -
    have "signed_take_bit 63 (sint d) = sint d"
      using d by (intro signed_take_bit_int_eq_self) simp_all
    then show ?thesis by (simp only: scast_eq sint_sbintrunc') simp
  qed
  ultimately show "sint (tt + scast d) = sint tt + sint d" by (simp add: sint_word_ariths)
qed

lemma perform_tallies_step:
  assumes t: "tallied n st tly" and n: "Suc n < 2 ^ 31" and P: "length P = 16"
    and r: "perform_tallies P d st tly = (st', tly')"
  shows "tallied (Suc n) st' tly'"
proof -
  let ?b = "\<lambda>i. unat (P ! i)"
  let ?row = "\<lambda>i. (tly ! i)[?b i := tally_cell d (tly ! i ! ?b i)]"
  from t have len: "length tly = 16" "\<forall>i<16. length (tly ! i) = 256"
    and tr: "sint (total_runs st) = int n"
    and tb: "\<bar>sint (total_ticks st)\<bar> \<le> int n * 2 ^ 31"
    and nn: "\<forall>i<16. \<forall>b<256. 0 \<le> sint (num (tly ! i ! b))"
    and cs: "\<forall>i<16. (\<Sum>b<256. sint (num (tly ! i ! b))) = int n"
    and ts: "\<forall>i<16. (\<Sum>b<256. ticks (tly ! i ! b)) = real_of_int (sint (total_ticks st))"
    and tz: "\<forall>i<16. \<forall>b<256. \<exists>z. ticks (tly ! i ! b) = real_of_int z \<and> \<bar>z\<bar> \<le> int n * 2 ^ 31"
    by (simp_all add: tallied_def)
  from r have st': "st' = st\<lparr>total_ticks := total_ticks st + scast d, total_runs := total_runs st + 1\<rparr>"
    and tly': "tly' = map ?row [0..<16]"
    by (simp_all add: perform_tallies_def Let_def)
  have row: "tly' ! i = ?row i" if "i < 16" for i
    unfolding tly' using that by (simp del: upt_Suc)
  have b256: "?b i < 256" for i using unsigned_less [of "P ! i", where ?'a = nat] by simp
  have n31: "n < 2 ^ 31" using n by simp
  have a1: "length tly' = 16" unfolding tly' by simp
  have a2: "\<forall>i<16. length (tly' ! i) = 256" using row len(2) by simp
  have a3: "sint (total_runs st') = int (Suc n)"
    unfolding st' using sint_runs_succ [of "total_runs st"] tr n by simp
  note ta = sint_ticks_add [OF tb n31, of d]
  have a4: "\<bar>sint (total_ticks st')\<bar> \<le> int (Suc n) * 2 ^ 31"
    unfolding st' using ta by simp
  have cell_le: "sint (num (tly ! i ! b)) \<le> int n" if "i < 16" "b < 256" for i b
  proof -
    have "sint (num (tly ! i ! b)) \<le> (\<Sum>b<256. sint (num (tly ! i ! b)))"
      using nn that by (intro member_le_sum) simp_all
    with cs that(1) show ?thesis by simp
  qed
  have cell_succ: "sint (num (tally_cell d (tly ! i ! ?b i))) = sint (num (tly ! i ! ?b i)) + 1"
    if "i < 16" for i
  proof -
    have "0 \<le> sint (num (tly ! i ! ?b i))" using nn that b256 by simp
    moreover have "sint (num (tly ! i ! ?b i)) < 2 ^ 31" using cell_le [OF that b256 [of i]] n31 by simp
    ultimately show ?thesis by (simp add: tally_cell_def sint_num_succ)
  qed
  have a5: "\<forall>i<16. \<forall>b<256. 0 \<le> sint (num (tly' ! i ! b))"
  proof (intro allI impI)
    fix i b :: nat assume i: "i < 16" and b: "b < 256"
    show "0 \<le> sint (num (tly' ! i ! b))"
    proof (cases "b = ?b i")
      case True
      then have "tly' ! i ! b = tally_cell d (tly ! i ! ?b i)" using row [OF i] len(2) i b by simp
      with cell_succ [OF i] nn i b256 [of i] show ?thesis by simp
    next
      case False
      then have "tly' ! i ! b = tly ! i ! b" using row [OF i] by simp
      with nn i b show ?thesis by simp
    qed
  qed
  have a6: "\<forall>i<16. (\<Sum>b<256. sint (num (tly' ! i ! b))) = int (Suc n)"
  proof (intro allI impI)
    fix i :: nat assume i: "i < 16"
    have l: "length (tly ! i) = 256" using len(2) i by simp
    have "(\<Sum>b<256. sint (num (tly' ! i ! b))) = (\<Sum>b<256. sint (num (?row i ! b)))"
      unfolding row [OF i] ..
    also have "\<dots> = (\<Sum>b<256. sint (num (tly ! i ! b))) - sint (num (tly ! i ! ?b i))
        + sint (num (tally_cell d (tly ! i ! ?b i)))"
      using sum_row_update [OF b256 l, of "\<lambda>c. sint (num c)" i] .
    also have "\<dots> = int (Suc n)" using cs i cell_succ [OF i] by simp
    finally show "(\<Sum>b<256. sint (num (tly' ! i ! b))) = int (Suc n)" .
  qed
  have a7: "\<forall>i<16. (\<Sum>b<256. ticks (tly' ! i ! b)) = real_of_int (sint (total_ticks st'))"
  proof (intro allI impI)
    fix i :: nat assume i: "i < 16"
    have l: "length (tly ! i) = 256" using len(2) i by simp
    have "(\<Sum>b<256. ticks (tly' ! i ! b)) = (\<Sum>b<256. ticks (?row i ! b))"
      unfolding row [OF i] ..
    also have "\<dots> = (\<Sum>b<256. ticks (tly ! i ! b)) - ticks (tly ! i ! ?b i)
        + ticks (tally_cell d (tly ! i ! ?b i))"
      using sum_row_update [OF b256 l, of ticks i] .
    also have "\<dots> = real_of_int (sint (total_ticks st)) + real_of_int (sint d)"
      using ts i by (simp add: tally_cell_def)
    also have "\<dots> = real_of_int (sint (total_ticks st'))" unfolding st' using ta(1) by simp
    finally show "(\<Sum>b<256. ticks (tly' ! i ! b)) = real_of_int (sint (total_ticks st'))" .
  qed
  have a8: "\<forall>i<16. \<forall>b<256. \<exists>z. ticks (tly' ! i ! b) = real_of_int z \<and> \<bar>z\<bar> \<le> int (Suc n) * 2 ^ 31"
  proof (intro allI impI)
    fix i b :: nat assume i: "i < 16" and b: "b < 256"
    from tz i b obtain z where z: "ticks (tly ! i ! b) = real_of_int z" "\<bar>z\<bar> \<le> int n * 2 ^ 31"
      by blast
    have d: "- (2 ^ 31) \<le> sint d" "sint d < 2 ^ 31"
      using sint_ge [of d] sint_lt [of d] by simp_all
    show "\<exists>z. ticks (tly' ! i ! b) = real_of_int z \<and> \<bar>z\<bar> \<le> int (Suc n) * 2 ^ 31"
    proof (cases "b = ?b i")
      case True
      then have "tly' ! i ! b = tally_cell d (tly ! i ! b)" using row [OF i] len(2) i b by simp
      then have "ticks (tly' ! i ! b) = real_of_int (z + sint d)" using z(1) by (simp add: tally_cell_def)
      moreover have "\<bar>z + sint d\<bar> \<le> int (Suc n) * 2 ^ 31"
        using z(2) d by (simp add: algebra_simps abs_le_iff)
      ultimately show ?thesis by blast
    next
      case False
      then have "tly' ! i ! b = tly ! i ! b" using row [OF i] by simp
      then have "ticks (tly' ! i ! b) = real_of_int z" using z(1) by simp
      moreover have "\<bar>z\<bar> \<le> int (Suc n) * 2 ^ 31" using z(2) by (simp add: algebra_simps)
      ultimately show ?thesis by blast
    qed
  qed
  from a1 a2 a3 a4 a5 a6 a7 a8 show ?thesis unfolding tallied_def by blast
qed

lemma generate_tallying_Some:
  assumes "generate_tallying e st tly = Some (data, t, st', tly')"
  shows "\<exists>st1. length data = 16 \<and> total_runs st1 = total_runs st \<and> total_ticks st1 = total_ticks st \<and>
           perform_tallies data t st1 tly = (st', tly')"
proof -
  from assms obtain st1 tly1 where g: "generate e st tly = Some (data, t, st1, tly1)"
    and p: "perform_tallies data t st1 tly1 = (st', tly')"
    by (auto simp: generate_tallying_def split: option.splits prod.splits)
  from generate_Some [OF g] have "tly1 = tly" "length data = 16"
    "total_runs st1 = total_runs st" "total_ticks st1 = total_ticks st" by auto
  with p show ?thesis by blast
qed

lemma generate_n_tallying_conserves:
  "generate_n_tallying e m data st tly = Some (data', st', tly') \<Longrightarrow>
   tallied n st tly \<Longrightarrow> n + m < 2 ^ 31 \<Longrightarrow> tallied (n + m) st' tly'"
proof (induction m arbitrary: data st tly n)
  case 0
  then show ?case by simp
next
  case (Suc m)
  from Suc.prems(1) obtain d t s1 t1 where g: "generate_tallying e st tly = Some (d, t, s1, t1)"
    and r: "generate_n_tallying e m d s1 t1 = Some (data', st', tly')"
    by (auto split: option.splits)
  from generate_tallying_Some [OF g] obtain st1 where l: "length d = 16"
    and e: "total_runs st1 = total_runs st" "total_ticks st1 = total_ticks st"
    and p: "perform_tallies d t st1 tly = (s1, t1)" by blast
  from Suc.prems(2) e have t0: "tallied n st1 tly" by (simp add: tallied_def)
  have "Suc n < 2 ^ 31" using Suc.prems(3) by simp
  from perform_tallies_step [OF t0 this l p] have t1: "tallied (Suc n) s1 t1" .
  have "Suc n + m < 2 ^ 31" using Suc.prems(3) by simp
  from Suc.IH [OF r t1 this] show ?case by simp
qed

lemma tallied_zero: "tallied 0 (st\<lparr>total_ticks := 0, total_runs := 0\<rparr>) zero_tally"
  by (simp add: tallied_def zero_tally_def)

lemma study_key_tallying_conserves:
  assumes "study_key_tallying e st tly means data test_key gen_key runs = Some (k, d, st', tly', means')"
  shows "tallied (nat (sint runs)) st' tly'"
proof -
  obtain tk s1 where p: "(if gen_key then rand_bytes e 16 st else (test_key, st)) = (tk, s1)"
    by (cases "if gen_key then rand_bytes e 16 st else (test_key, st)")
  let ?s2 = "s1\<lparr>total_ticks := 0, total_runs := 0\<rparr>"
  from assms p have g: "generate_n_tallying e (nat (sint runs)) data ?s2 zero_tally = Some (d, st', tly')"
    by (auto simp: study_key_tallying_def Let_def split: option.splits if_splits)
  have "sint runs < 2 ^ 31" using sint_lt [of runs] by simp
  then have "0 + nat (sint runs) < 2 ^ 31" by simp
  from generate_n_tallying_conserves [OF g tallied_zero this] show ?thesis by simp
qed

lemma tallied_ticks_exact:
  assumes "study_key_tallying e st tly means data test_key gen_key runs = Some (k, d, st', tly', means')"
    and "sint runs \<le> 4194304" "i < 16" "b < 256"
  shows "\<exists>z. ticks (tly' ! i ! b) = real_of_int z \<and> \<bar>z\<bar> \<le> 2 ^ 53"
proof -
  from study_key_tallying_conserves [OF assms(1)] assms(3,4) obtain z where
    z: "ticks (tly' ! i ! b) = real_of_int z" "\<bar>z\<bar> \<le> int (nat (sint runs)) * 2 ^ 31"
    unfolding tallied_def by blast
  have "int (nat (sint runs)) \<le> 4194304" using assms(2) by simp
  then have "int (nat (sint runs)) * 2 ^ 31 \<le> 4194304 * 2 ^ 31" by (intro mult_right_mono) simp_all
  with z(2) have "\<bar>z\<bar> \<le> 2 ^ 53" by simp
  with z(1) show ?thesis by blast
qed

lemma generate_tallying_at:
  assumes "\<not> tally_threshold st <s rdtsc_ticks e (clock st + k)"
    and "\<forall>j<k. tally_threshold st <s rdtsc_ticks e (clock st + j)"
  shows "generate_tallying e st tly =
     (let P = map (\<lambda>i. rand e (rand_pos st + i)) [0..<16]; t = rdtsc_ticks e (clock st + k) in
      Some (P, t,
            st\<lparr>rand_pos := rand_pos st + 16, clock := clock st + k + 1,
                total_ticks := total_ticks st + scast t, total_runs := total_runs st + 1\<rparr>,
            map (\<lambda>i. (tly ! i)[unat (P ! i) := tally_cell t (tly ! i ! unat (P ! i))]) [0..<16]))"
proof -
  let ?st = "st\<lparr>rand_pos := rand_pos st + 16\<rparr>"
  have a: "\<not> tally_threshold ?st <s rdtsc_ticks e (clock ?st + k)" using assms(1) by simp
  have b: "\<forall>j<k. tally_threshold ?st <s rdtsc_ticks e (clock ?st + j)" using assms(2) by simp
  have "generate e st tly = Some (map (\<lambda>i. rand e (rand_pos st + i)) [0..<16],
      rdtsc_ticks e (clock st + k), ?st\<lparr>clock := clock ?st + k + 1\<rparr>, tly)"
    unfolding generate_def rand_bytes_def using generate_retry_first [OF a b] by simp
  then show ?thesis
    by (simp add: generate_tallying_def perform_tallies_def Let_def del: upt_Suc map_eq_conv)
qed

section \<open>Calibration and the program\<close>

lemma sint_succ:
  fixes x y :: "32 word"
  assumes "x <s y"
  shows "sint (x + 1) = sint x + 1"
proof -
  have "sint x < sint y" using assms by (simp add: word_sless_alt)
  moreover have "sint y < 2 ^ 31" using sint_lt [of y] by simp
  moreover have "- (2 ^ 31) \<le> sint x" using sint_ge [of x] by simp
  ultimately have "- (2 ^ 31) \<le> sint x + 1 \<and> sint x + 1 < 2 ^ 31" by simp
  then have "signed_take_bit 31 (sint x + 1) = sint x + 1"
    by (intro signed_take_bit_int_eq_self) simp_all
  then show ?thesis by (simp add: sint_word_ariths)
qed

lemma cutoff_loop_result:
  "sint (total_runs st) \<le> sint runs \<Longrightarrow>
   cutoff_loop e runs data st = (data', st') \<Longrightarrow>
   total_runs st' = runs \<and>
   clock st' = clock st + nat (sint runs - sint (total_runs st)) \<and>
   rand_pos st' = rand_pos st + 16 * nat (sint runs - sint (total_runs st)) \<and>
   total_ticks st' = total_ticks st +
      (\<Sum>j<nat (sint runs - sint (total_runs st)). scast (rdtsc_ticks e (clock st + j))) \<and>
   tally_threshold st' = tally_threshold st \<and> d_arg st' = d_arg st"
proof (induction e runs data st arbitrary: data' st' rule: cutoff_loop.induct)
  case (1 e runs data st)
  show ?case
  proof (cases "total_runs st <s runs")
    case False
    with "1.prems"(1) have "sint (total_runs st) = sint runs" by (simp add: word_sless_alt)
    then have "total_runs st = runs" by (rule signed_word_eqI)
    moreover from False "1.prems"(2) have "st' = st" by (subst (asm) cutoff_loop.simps) simp
    ultimately show ?thesis by simp
  next
    case True
    let ?t = "rdtsc_ticks e (clock st)"
    let ?d = "map (\<lambda>i. rand e (rand_pos st + i)) [0..<16]"
    let ?s1 = "st\<lparr>rand_pos := rand_pos st + 16\<rparr>"
    let ?s2 = "?s1\<lparr>clock := clock st + 1\<rparr>"
    let ?s3 = "?s2\<lparr>total_ticks := total_ticks st + scast ?t\<rparr>"
    let ?s4 = "?s3\<lparr>total_runs := total_runs ?s3 + 1\<rparr>"
    have rb: "(?d, ?s1) = rand_bytes e 16 st" by (simp add: rand_bytes_def)
    have rn: "(?t, ?s2) = run e ?s1" by (simp add: run_def)
    have s3: "?s3 = ?s2\<lparr>total_ticks := total_ticks ?s2 + scast ?t\<rparr>" by simp
    have step: "cutoff_loop e runs data st = cutoff_loop e runs ?d ?s4"
      using True by (subst cutoff_loop.simps) (simp add: rand_bytes_def run_def del: cutoff_loop.simps)
    have sc: "sint (total_runs st + 1) = sint (total_runs st) + 1" using True by (rule sint_succ)
    have lt: "sint (total_runs st) < sint runs" using True by (simp add: word_sless_alt)
    have le: "sint (total_runs ?s4) \<le> sint runs" using sc lt by simp
    have r: "cutoff_loop e runs ?d ?s4 = (data', st')" using step "1.prems"(2) by simp
    note IH = "1.IH" [OF True refl rb refl rn s3 le r]
    define n where "n = nat (sint runs - sint (total_runs st + 1))"
    have n: "nat (sint runs - sint (total_runs st)) = Suc n" using sc lt by (simp add: n_def)
    have sum: "(\<Sum>j<Suc n. scast (rdtsc_ticks e (clock st + j)) :: 64 word)
        = scast ?t + (\<Sum>j<n. scast (rdtsc_ticks e (clock st + 1 + j)))"
      using sum.lessThan_Suc_shift [of "\<lambda>j. scast (rdtsc_ticks e (clock st + j)) :: 64 word" n]
      by simp
    from IH show ?thesis unfolding n sum by (simp add: n_def [symmetric] add.assoc)
  qed
qed

lemma calc_encryption_stats_calibrates:
  assumes "\<not> 0 < d_arg st" "0 <s runs"
  shows "\<exists>key' data' st'. calc_encryption_stats e key data runs st = Some (key', data', st') \<and>
     total_runs st' = runs \<and> clock st' = clock st + nat (sint runs) \<and>
     total_ticks st' = total_ticks st +
        (\<Sum>j<nat (sint runs). scast (rdtsc_ticks e (clock st + j))) \<and>
     tally_threshold st' =
        word_of_int (sint (total_ticks st') sdiv sint (total_runs st') * THRESH_MULT)"
proof -
  let ?s1 = "st\<lparr>rand_pos := rand_pos st + 16\<rparr>"
  let ?s0 = "?s1\<lparr>total_runs := 0\<rparr>"
  obtain data' st2 where c: "cutoff_loop e runs data ?s0 = (data', st2)"
    by (cases "cutoff_loop e runs data ?s0")
  have le: "sint (total_runs ?s0) \<le> sint runs" using assms(2) by (simp add: word_sless_alt)
  note r = cutoff_loop_result [OF le c]
  from r assms(2) have nz: "total_runs st2 \<noteq> 0" by auto
  let ?st' = "st2\<lparr>tally_threshold :=
      word_of_int (sint (total_ticks st2) sdiv sint (total_runs st2) * THRESH_MULT)\<rparr>"
  have "calc_encryption_stats e key data runs st
      = Some (map (\<lambda>i. rand e (rand_pos st + i)) [0..<16], data', ?st')"
    using assms(1) c nz by (simp add: calc_encryption_stats_def rand_bytes_def)
  moreover have "total_runs ?st' = runs" "clock ?st' = clock st + nat (sint runs)"
    "total_ticks ?st' = total_ticks st +
        (\<Sum>j<nat (sint runs). scast (rdtsc_ticks e (clock st + j)))"
    using r by simp_all
  ultimately show ?thesis by auto
qed


lemma sum_scast_ticks:
  "(\<Sum>j<(n::nat). scast (f j :: 32 word) :: 64 word) = word_of_int (\<Sum>j<n. sint (f j))"
proof -
  have "(\<Sum>j<n. scast (f j) :: 64 word) = (\<Sum>j<n. word_of_int (sint (f j)))"
    by (rule sum.cong) (simp_all only: scast_eq)
  also have "\<dots> = word_of_int (\<Sum>j<n. sint (f j))" by (simp only: of_int_sum)
  finally show ?thesis .
qed

lemma mean_threshold_int:
  fixes f :: "nat \<Rightarrow> 32 word"
  assumes "\<forall>j<4194304. 0 \<le> sint (f j) \<and> sint (f j) \<le> 429496729"
    and tt: "tt = (\<Sum>j<4194304. scast (f j) :: 64 word)"
  shows "sint (word_of_int (sint tt sdiv sint (4194304 :: 32 word) * THRESH_MULT) :: 32 word)
         = (\<Sum>j<4194304. sint (f j)) div 4194304 * 5"
proof -
  let ?S = "\<Sum>j<4194304::nat. sint (f j)"
  have lo: "0 \<le> ?S" using assms(1) by (intro sum_nonneg) simp
  have "?S \<le> (\<Sum>j<4194304::nat. 429496729)" using assms(1) by (intro sum_mono) simp
  then have hi: "?S \<le> 4194304 * 429496729" by simp
  have "signed_take_bit 63 ?S = ?S" using lo hi by (intro signed_take_bit_int_eq_self) simp_all
  then have st: "sint tt = ?S" unfolding tt sum_scast_ticks sint_sbintrunc' by simp
  have q: "?S sdiv 4194304 = ?S div 4194304" using lo by (simp add: signed_divide_int_def sgn_if)
  have qlo: "0 \<le> ?S div 4194304" using lo by simp
  have qhi: "?S div 4194304 \<le> 429496729" using hi by simp
  have tb: "signed_take_bit 31 (?S div 4194304 * 5) = ?S div 4194304 * 5"
    using qlo qhi by (intro signed_take_bit_int_eq_self) simp_all
  have e: "sint tt sdiv sint (4194304 :: 32 word) * THRESH_MULT = ?S div 4194304 * 5"
    by (simp add: st q THRESH_MULT_def)
  show ?thesis unfolding e sint_sbintrunc' using tb by simp
qed



lemma default_runs: "(push_bit DEFAULT_RUNS 1 :: 32 word) = 4194304"
  by (simp add: DEFAULT_RUNS_def)

lemma generate_accepts:
  assumes "\<forall>k. \<not> tally_threshold st <s rdtsc_ticks e k"
  shows "\<exists>data t st'. generate e st tly = Some (data, t, st', tly) \<and>
           tally_threshold st' = tally_threshold st"
proof -
  let ?st = "st\<lparr>rand_pos := rand_pos st + 16\<rparr>"
  have a: "\<not> tally_threshold ?st <s rdtsc_ticks e (clock ?st + 0)" using assms by simp
  have b: "\<forall>j<0. tally_threshold ?st <s rdtsc_ticks e (clock ?st + j)" by simp
  from generate_retry_first [OF a b] show ?thesis
    by (simp add: generate_def rand_bytes_def)
qed

lemma generate_n_accepts:
  assumes "\<forall>k. \<not> tally_threshold st <s rdtsc_ticks e k"
  shows "\<exists>data' st'. generate_n e n data st tly = Some (data', st', tly) \<and>
           tally_threshold st' = tally_threshold st"
  using assms
proof (induction n arbitrary: data st)
  case 0
  then show ?case by simp
next
  case (Suc n)
  from generate_accepts [OF Suc.prems, of tly] obtain d t s1 where
    g: "generate e st tly = Some (d, t, s1, tly)" "tally_threshold s1 = tally_threshold st"
    by blast
  with Suc.prems have "\<forall>k. \<not> tally_threshold s1 <s rdtsc_ticks e k" by simp
  from Suc.IH [OF this, of d] g show ?case by auto
qed

lemma study_key_accepts:
  assumes "\<forall>k. \<not> tally_threshold st <s rdtsc_ticks e k" "runs \<noteq> 0"
  shows "\<exists>k d st' tly' means'.
           study_key e st tly means data test_key gen_key runs = Some (k, d, st', tly', means') \<and>
           tally_threshold st' = tally_threshold st"
proof -
  obtain tk s1 where p: "(if gen_key then rand_bytes e 16 st else (test_key, st)) = (tk, s1)"
    by (cases "if gen_key then rand_bytes e 16 st else (test_key, st)")
  then have s1: "tally_threshold s1 = tally_threshold st"
    by (auto simp: rand_bytes_def split: if_splits)
  let ?s2 = "s1\<lparr>total_ticks := 0, total_runs := 0\<rparr>"
  have "\<forall>k. \<not> tally_threshold ?s2 <s rdtsc_ticks e k" using assms(1) s1 by simp
  from generate_n_accepts [OF this, of "nat (sint runs)" data zero_tally] obtain d st' where
    g: "generate_n e (nat (sint runs)) data ?s2 zero_tally = Some (d, st', zero_tally)"
       "tally_threshold st' = tally_threshold ?s2" by blast
  have "study_key e st tly means data test_key gen_key runs
      = Some (tk, d, st', zero_tally, calc_means zero_tally means)"
    using p g(1) assms(2) by (simp add: study_key_def Let_def)
  with g(2) s1 show ?thesis by simp
qed

lemma test_runs_accepts:
  assumes "\<forall>k. \<not> tally_threshold st <s rdtsc_ticks e k" "runs \<noteq> 0"
  shows "test_runs e n runs st fr \<noteq> None"
  using assms(1)
proof (induction n arbitrary: st fr)
  case 0
  then show ?case by simp
next
  case (Suc n)
  from study_key_accepts [OF Suc.prems assms(2),
      of "tly_buf fr" "means_test_buf fr" "data_buf fr" "test_key_buf fr" True]
  obtain k d st' tly' means' where
    s: "study_key e st (tly_buf fr) (means_test_buf fr) (data_buf fr) (test_key_buf fr) True runs
          = Some (k, d, st', tly', means')" "tally_threshold st' = tally_threshold st" by blast
  with Suc.prems have "\<forall>k. \<not> tally_threshold st' <s rdtsc_ticks e k" by simp
  from Suc.IH [OF this] s(1) show ?case by simp
qed

lemma gather_accepts:
  assumes "calc_encryption_stats e (test_key_buf fr) (data_buf fr) (push_bit DEFAULT_RUNS 1) st
             = Some (k, d, st1)"
    and "\<forall>j. \<not> tally_threshold st1 <s rdtsc_ticks e j"
  shows "gather e st fr target_key \<noteq> None"
proof -
  have nz: "(push_bit DEFAULT_RUNS 1 :: 32 word) \<noteq> 0" unfolding default_runs by simp
  from study_key_accepts [OF assms(2) nz,
      of "tly_buf fr" "means_target_buf fr" d target_key False]
  obtain tk d' st2 tly' means' where
    s: "study_key e st1 (tly_buf fr) (means_target_buf fr) d target_key False
          (push_bit DEFAULT_RUNS 1) = Some (tk, d', st2, tly', means')"
       "tally_threshold st2 = tally_threshold st1" by blast
  with assms(2) have "\<forall>k. \<not> tally_threshold st2 <s rdtsc_ticks e k" by simp
  from test_runs_accepts [OF this nz] assms(1) s(1) show ?thesis
    by (simp add: gather_def Let_def)
qed

lemma brute_force_absent: "brute_force aes None target_key = Some (- 1, [])"
  by (simp add: brute_force_def)

lemma test_runs_effects:
  "test_runs e n runs st fr = Some (st', fr') \<Longrightarrow>
   rand_pos st' = rand_pos st + n * (16 + 16 * nat (sint runs)) \<and>
   clock st + n * nat (sint runs) \<le> clock st' \<and>
   tally_threshold st' = tally_threshold st"
proof (induction n arbitrary: st fr)
  case 0
  then show ?case by simp
next
  case (Suc n)
  from Suc.prems obtain k d s1 t1 m1 where
    s: "study_key e st (tly_buf fr) (means_test_buf fr) (data_buf fr) (test_key_buf fr) True runs
          = Some (k, d, s1, t1, m1)"
    and r: "test_runs e n runs s1
            (fr\<lparr>test_key_buf := k, data_buf := d, tly_buf := t1, means_test_buf := m1,
                corr_buf := correlate m1 (means_target_buf fr) k (corr_buf fr)\<rparr>) = Some (st', fr')"
    by (auto split: option.splits)
  from study_key_effects [OF s] study_key_Some [OF s]
  have a: "rand_pos s1 = rand_pos st + 16 + 16 * nat (sint runs)"
    "clock st + nat (sint runs) \<le> clock s1" "tally_threshold s1 = tally_threshold st" by auto
  from Suc.IH [OF r] a show ?case by (simp add: algebra_simps)
qed

lemma gather_effects:
  assumes "gather e st fr target_key = Some (st', fr')"
  shows "\<exists>k d st1.
     calc_encryption_stats e (test_key_buf fr) (data_buf fr) 4194304 st = Some (k, d, st1) \<and>
     tally_threshold st' = tally_threshold st1 \<and>
     rand_pos st' = rand_pos st1 + 16 * (11 * 4194304 + 10) \<and>
     clock st1 + 11 * 4194304 \<le> clock st'"
proof -
  have n: "nat (sint (4194304 :: 32 word)) = 4194304" by simp
  have ge: "gather e st fr target_key =
     (case calc_encryption_stats e (test_key_buf fr) (data_buf fr) 4194304 st of
        None \<Rightarrow> None
      | Some (k, d, st1) \<Rightarrow>
          (case study_key e st1 (tly_buf fr) (means_target_buf fr) d target_key False 4194304 of
             None \<Rightarrow> None
           | Some (tk, d', st2, tly', means') \<Rightarrow>
               test_runs e KEYS_CAP 4194304 st2
                 (fr\<lparr>test_key_buf := k, data_buf := d', tly_buf := tly',
                     means_target_buf := means'\<rparr>)))"
    unfolding gather_def Let_def default_runs ..
  from assms obtain k d st1 where
    c: "calc_encryption_stats e (test_key_buf fr) (data_buf fr) 4194304 st = Some (k, d, st1)"
    unfolding ge by (auto split: option.splits)
  with assms obtain tk d' st2 tly' means' where
    s: "study_key e st1 (tly_buf fr) (means_target_buf fr) d target_key False 4194304
          = Some (tk, d', st2, tly', means')"
    and t: "test_runs e KEYS_CAP 4194304 st2
              (fr\<lparr>test_key_buf := k, data_buf := d', tly_buf := tly', means_target_buf := means'\<rparr>)
            = Some (st', fr')"
    unfolding ge by (auto split: option.splits)
  from study_key_effects [OF s] study_key_Some [OF s]
  have a: "rand_pos st2 = rand_pos st1 + 16 * 4194304" "clock st1 + 4194304 \<le> clock st2"
    "tally_threshold st2 = tally_threshold st1" unfolding n by auto
  from test_runs_effects [OF t]
  have b: "rand_pos st' = rand_pos st2 + 10 * (16 + 16 * 4194304)"
    "clock st2 + 10 * 4194304 \<le> clock st'" "tally_threshold st' = tally_threshold st2"
    unfolding n KEYS_CAP_def by auto
  from a b have "tally_threshold st' = tally_threshold st1 \<and>
     rand_pos st' = rand_pos st1 + 16 * (11 * 4194304 + 10) \<and>
     clock st1 + 11 * 4194304 \<le> clock st'" by simp
  with c show ?thesis by blast
qed

lemma calc_quiet:
  "\<exists>k d st1. calc_encryption_stats quiet_env key data 4194304 (init_globals\<lparr>d_arg := 0\<rparr>)
       = Some (k, d, st1) \<and> sint (tally_threshold st1) = 500 \<and> clock st1 = 4194304"
proof -
  let ?st = "init_globals\<lparr>d_arg := 0\<rparr>"
  have a: "\<not> 0 < d_arg ?st" by simp
  have b: "(0 :: 32 word) <s 4194304" by (simp add: word_sless_alt)
  from calc_encryption_stats_calibrates [OF a b, of quiet_env key data]
  obtain k d st1 where r:
    "calc_encryption_stats quiet_env key data 4194304 ?st = Some (k, d, st1)"
    "total_runs st1 = 4194304"
    "clock st1 = clock ?st + nat (sint (4194304 :: 32 word))"
    "total_ticks st1 = total_ticks ?st +
        (\<Sum>j<nat (sint (4194304 :: 32 word)). scast (rdtsc_ticks quiet_env (clock ?st + j)))"
    "tally_threshold st1 =
        word_of_int (sint (total_ticks st1) sdiv sint (total_runs st1) * THRESH_MULT)"
    by blast
  have t: "total_ticks st1 = (\<Sum>j<4194304. scast (rdtsc_ticks quiet_env j))"
    using r(4) by (simp add: init_globals_def)
  have c: "clock st1 = 4194304" using r(3) by (simp add: init_globals_def)
  have q: "\<forall>j<4194304. 0 \<le> sint (rdtsc_ticks quiet_env j) \<and> sint (rdtsc_ticks quiet_env j) \<le> 429496729"
    by (simp add: quiet_env_def)
  have "sint (tally_threshold st1) = (\<Sum>j<4194304::nat. sint (rdtsc_ticks quiet_env j)) div 4194304 * 5"
    using mean_threshold_int [OF q t] r(2,5) by simp
  then have "sint (tally_threshold st1) = 500" by (simp add: quiet_env_def)
  with r(1) c show ?thesis by blast
qed

section \<open>The claims\<close>

text \<open>
  C1.  The claim is that a call of \<open>generate\<close> that accepts plaintext \<open>P\<close> with duration
  \<open>d\<close> raises the count of \<open>tly[i][P[i]]\<close> by 1 and its tick sum by \<open>d\<close> at all 16 positions, adds
  \<open>d\<close> to \<open>total_ticks\<close> and 1 to \<open>total_runs\<close>.  The header comment of \<open>generate\<close> says the
  same, but its tallying block is missing.  Evaluated on a zeroed table, with a first
  measurement of 100 ticks under the initial threshold: the call accepts \<open>P\<close> = sixteen zero
  bytes with \<open>d = 100\<close>, and \<open>tly[0][0]\<close>, \<open>total_runs\<close> and \<open>total_ticks\<close> are still 0.
\<close>

theorem generate_skips_tally:
  "generate quiet_env init_globals zero_tally
     = Some (replicate 16 0, 100, init_globals\<lparr>rand_pos := 16, clock := 1\<rparr>, zero_tally) \<and>
   num (zero_tally ! 0 ! 0) = 0 \<and> ticks (zero_tally ! 0 ! 0) = 0 \<and>
   total_runs (init_globals\<lparr>rand_pos := 16, clock := 1\<rparr>) = 0 \<and>
   total_ticks (init_globals\<lparr>rand_pos := 16, clock := 1\<rparr>) = 0"
proof -
  have "\<not> tally_threshold init_globals <s 100" by (simp add: init_globals_def)
  from generate_quiet [OF this, of zero_tally] show ?thesis
    by (simp add: init_globals_def zero_tally_def)
qed

text \<open>
  C2.  The claim is that \<open>calc_means\<close> fills \<open>means\<close> with \<open>(ticks / num) / G\<close>, and with 1.0
  where \<open>num\<close> is 0.  The header comment of \<open>calc_means\<close> says that it places the normalised
  means in \<open>means\<close>, but its body is missing.  Evaluated on a table whose only measurement
  is one run of 100 ticks at \<open>tly[0][0]\<close> (so that \<open>G = 100\<close>, and both \<open>means[0][0]\<close> and
  \<open>means[0][1]\<close> should become 1.0) and on a matrix of zeros: both entries are still 0.
\<close>

theorem calc_means_writes_nothing:
  "calc_means (zero_tally[0 := (zero_tally ! 0)[0 := \<lparr>num = 1, ticks = 100\<rparr>]])
     (replicate 16 (replicate 256 0)) ! 0 ! 0 = 0 \<and>
   calc_means (zero_tally[0 := (zero_tally ! 0)[0 := \<lparr>num = 1, ticks = 100\<rparr>]])
     (replicate 16 (replicate 256 0)) ! 0 ! 1 = 0"
  by (simp add: calc_means_def)

text \<open>
  C3.  The claim is that \<open>correlate\<close> stores in \<open>corr[i][k1]\<close> the Pearson coefficient of
  the two re-indexed rows.  The header comment of \<open>correlate\<close> says that \<open>corr\<close> is populated
  with these coefficients, but its body is missing.  Evaluated on two equal matrices whose
  rows are 0, 1, ..., 255, the all-zeros key and a matrix of zeros: at \<open>i = 0\<close>, \<open>k1 = 0\<close> both
  re-indexed rows are the ramp itself, whose coefficient with itself is 1, and
  \<open>corr[0][0]\<close> is still 0.
\<close>

theorem correlate_writes_nothing:
  "correlate (replicate 16 (map real [0..<256])) (replicate 16 (map real [0..<256]))
     (replicate 16 0) (replicate 16 (replicate 256 0)) ! 0 ! 0 = 0"
  by (simp add: correlate_def)

text \<open>
  C4.  For a well-formed pool file (16 pools of 1 to 256 distinct bytes each) and a cipher
  under which, for every candidate key (a 16-byte key whose byte at each position comes
  from the pool of that position), the encryption of the all-zeros block agrees with the
  reference ciphertext in all 16 bytes exactly when the candidate is the target key: if
  every pool holds its byte of the target key, \<open>brute_force\<close> returns 0, the target key is
  the last key tried and was not tried before, and no more keys were tried than the
  product of the pool lengths; if some pool lacks its byte, \<open>brute_force\<close> returns 1 after
  trying every combination of the pools exactly once, as many as the product of the pool
  lengths.
\<close>

theorem brute_force_complete:
  assumes "length pools = 16"
    and "\<forall>p\<in>set pools. 1 \<le> length p \<and> length p \<le> 256 \<and> distinct p"
    and "length target_key = 16"
    and "\<forall>k. length k = 16 \<and> (\<forall>i<16. k ! i \<in> set (pools ! i)) \<longrightarrow>
       (\<forall>i<16. aes k (replicate 16 0) ! i = aes target_key (replicate 16 0) ! i) =
       (k = target_key)"
  shows "((\<forall>i<16. target_key ! i \<in> set (pools ! i)) \<longrightarrow>
           (\<exists>ks. brute_force aes (Some (pool_file pools)) target_key = Some (0, ks @ [target_key]) \<and>
                 target_key \<notin> set ks \<and>
                 length (ks @ [target_key]) \<le> prod_list (map length pools))) \<and>
         ((\<exists>i<16. target_key ! i \<notin> set (pools ! i)) \<longrightarrow>
           (\<exists>ks. brute_force aes (Some (pool_file pools)) target_key = Some (1, ks) \<and>
                 length ks = prod_list (map length pools) \<and> distinct ks \<and>
                 set ks = {k. length k = 16 \<and> (\<forall>i<16. k ! i \<in> set (pools ! i))}))"
  using brute_force_outcome [where aes = aes and pools = pools and target_key = target_key, OF assms] .

theorem brute_force_complete_witness:
  "map_option (\<lambda>(rc, ks). (rc, map (take 3) ks))
     (brute_force key_cipher (Some (pool_file ([[0, 1], [5, 6, 7], [8, 9]] @ replicate 13 [0])))
        ([1, 6, 9] @ replicate 13 0))
   = Some (0, [[0, 5, 8], [0, 6, 8], [0, 7, 8], [1, 5, 8], [1, 6, 8], [1, 7, 8],
               [0, 5, 9], [0, 6, 9], [0, 7, 9], [1, 5, 9], [1, 6, 9]]) \<and>
   map_option (\<lambda>(rc, ks). (rc, map (take 3) ks))
     (brute_force key_cipher (Some (pool_file ([[0, 1], [5, 6, 7], [8, 9]] @ replicate 13 [0])))
        ([4, 6, 9] @ replicate 13 0))
   = Some (1, [[0, 5, 8], [0, 6, 8], [0, 7, 8], [1, 5, 8], [1, 6, 8], [1, 7, 8],
               [0, 5, 9], [0, 6, 9], [0, 7, 9], [1, 5, 9], [1, 6, 9], [1, 7, 9]]) \<and>
   (\<exists>ks. brute_force key_cipher (Some (pool_file ([[0, 1], [5, 6, 7], [8, 9]] @ replicate 13 [0])))
           ([1, 6, 9] @ replicate 13 0) = Some (0, ks @ [[1, 6, 9] @ replicate 13 0]) \<and>
         [1, 6, 9] @ replicate 13 0 \<notin> set ks \<and> length (ks @ [[1, 6, 9] @ replicate 13 0]) \<le> 12) \<and>
   (\<exists>ks. brute_force key_cipher (Some (pool_file ([[0, 1], [5, 6, 7], [8, 9]] @ replicate 13 [0])))
           ([4, 6, 9] @ replicate 13 0) = Some (1, ks) \<and> length ks = 12 \<and> distinct ks)"
proof -
  let ?pools = "[[0, 1], [5, 6, 7], [8, 9]] @ replicate 13 [0::byte]"
  let ?hit = "[1, 6, 9] @ replicate 13 (0::byte)"
  let ?miss = "[4, 6, 9] @ replicate 13 (0::byte)"
  have h1: "length ?pools = 16" by simp
  have h2: "\<forall>p\<in>set ?pools. 1 \<le> length p \<and> length p \<le> 256 \<and> distinct p" by simp
  have h3: "length ?hit = 16" "length ?miss = 16" by simp_all
  have h4: "\<forall>k. length k = 16 \<and> (\<forall>i<16. k ! i \<in> set (?pools ! i)) \<longrightarrow>
       (\<forall>i<16. key_cipher k (replicate 16 0) ! i = key_cipher t (replicate 16 0) ! i) = (k = t)"
    if "length t = 16" for t
    using that key_cipher_bytes by blast
  have p: "prod_list (map length ?pools) = 12" by simp
  have inp: "\<forall>i<16. ?hit ! i \<in> set (?pools ! i)"
  proof (intro allI impI)
    fix i :: nat assume "i < 16"
    then consider "i = 0" | "i = 1" | "i = 2" | "3 \<le> i" "i < 16" by linarith
    then show "?hit ! i \<in> set (?pools ! i)"
      by cases (simp_all add: nth_append)
  qed
  have out: "\<exists>i<16. ?miss ! i \<notin> set (?pools ! i)" by (intro exI [of _ 0]) simp
  note t1 = brute_force_complete [where aes = key_cipher and pools = ?pools and target_key = ?hit,
      OF h1 h2 h3(1) h4 [OF h3(1)]]
  note t2 = brute_force_complete [where aes = key_cipher and pools = ?pools and target_key = ?miss,
      OF h1 h2 h3(2) h4 [OF h3(2)]]
  from t1 inp have "\<exists>ks. brute_force key_cipher (Some (pool_file ?pools)) ?hit = Some (0, ks @ [?hit]) \<and>
       ?hit \<notin> set ks \<and> length (ks @ [?hit]) \<le> prod_list (map length ?pools)" by blast
  then have a: "\<exists>ks. brute_force key_cipher (Some (pool_file ?pools)) ?hit = Some (0, ks @ [?hit]) \<and>
       ?hit \<notin> set ks \<and> length (ks @ [?hit]) \<le> 12" unfolding p .
  from t2 out have "\<exists>ks. brute_force key_cipher (Some (pool_file ?pools)) ?miss = Some (1, ks) \<and>
       length ks = prod_list (map length ?pools) \<and> distinct ks" by blast
  then have b: "\<exists>ks. brute_force key_cipher (Some (pool_file ?pools)) ?miss = Some (1, ks) \<and>
       length ks = 12 \<and> distinct ks" unfolding p .
  have c: "map_option (\<lambda>(rc, ks). (rc, map (take 3) ks))
     (brute_force key_cipher (Some (pool_file ?pools)) ?hit)
   = Some (0, [[0, 5, 8], [0, 6, 8], [0, 7, 8], [1, 5, 8], [1, 6, 8], [1, 7, 8],
               [0, 5, 9], [0, 6, 9], [0, 7, 9], [1, 5, 9], [1, 6, 9]])"
    by code_simp
  have d: "map_option (\<lambda>(rc, ks). (rc, map (take 3) ks))
     (brute_force key_cipher (Some (pool_file ?pools)) ?miss)
   = Some (1, [[0, 5, 8], [0, 6, 8], [0, 7, 8], [1, 5, 8], [1, 6, 8], [1, 7, 8],
               [0, 5, 9], [0, 6, 9], [0, 7, 9], [1, 5, 9], [1, 6, 9], [1, 7, 9]])"
    by code_simp
  from a b c d show ?thesis by blast
qed

text \<open>
  C5, as stated, fails: the order is not ascending in pool size.  For pools of sizes
  1, 2, ..., 16 at positions 0, 1, ..., 15, \<open>order[0]\<close> is position 15, whose pool is the
  largest.  And in a run of \<open>brute_force\<close> over a pool of 2 at position 0, a pool of 3 at
  position 1 and pools of 1 elsewhere, the keys are tried with position 1, the larger
  pool, moving at every attempt (the first two bytes of the keys tried are shown).
\<close>

theorem bf_order_ascending_counterexample:
  "\<not> sorted (map (nth [1, 2, 3, 4, 5, 6, 7, 8, 9, 10, 11, 12, 13, 14, 15, 16::nat])
        (bf_order [1, 2, 3, 4, 5, 6, 7, 8, 9, 10, 11, 12, 13, 14, 15, 16])) \<and>
   bf_order [1, 2, 3, 4, 5, 6, 7, 8, 9, 10, 11, 12, 13, 14, 15, 16] ! 0 = 15 \<and>
   [1, 2, 3, 4, 5, 6, 7, 8, 9, 10, 11, 12, 13, 14, 15, 16::nat] ! 15 = 16 \<and>
   map_option (\<lambda>(rc, ks). (rc, map (take 2) ks))
     (brute_force key_cipher
        (Some (pool_file ([[0, 1], [5, 6, 7]] @ replicate 14 [0]))) (replicate 16 9))
   = Some (1, [[0, 5], [0, 6], [0, 7], [1, 5], [1, 6], [1, 7]])"
proof -
  have a: "\<not> sorted (map (nth [1, 2, 3, 4, 5, 6, 7, 8, 9, 10, 11, 12, 13, 14, 15, 16::nat])
        (bf_order [1, 2, 3, 4, 5, 6, 7, 8, 9, 10, 11, 12, 13, 14, 15, 16])) \<and>
   bf_order [1, 2, 3, 4, 5, 6, 7, 8, 9, 10, 11, 12, 13, 14, 15, 16] ! 0 = 15 \<and>
   [1, 2, 3, 4, 5, 6, 7, 8, 9, 10, 11, 12, 13, 14, 15, 16::nat] ! 15 = 16"
    unfolding bf_order_example by simp
  have b: "map_option (\<lambda>(rc, ks). (rc, map (take 2) ks))
     (brute_force key_cipher
        (Some (pool_file ([[0, 1], [5, 6, 7]] @ replicate 14 [0]))) (replicate 16 9))
   = Some (1, [[0, 5], [0, 6], [0, 7], [1, 5], [1, 6], [1, 7]])"
    by code_simp
  from a b show ?thesis by blast
qed

text \<open>
  C5, amended.  The order that \<open>brute_force\<close> hands to its carry loop is a permutation of
  the positions 0..15 sorted by descending pool size: \<open>order[0]\<close>, the counter that moves at
  every attempt, belongs to a largest pool, and \<open>order[15]\<close>, the counter that moves last, to
  a smallest pool, as the comment in \<open>brute_force\<close> says ("keep the smallest ones high").
  Positions whose pools have the same size keep their original relative order.
\<close>

theorem bf_order_descending:
  assumes "length lens = 16"
  shows "mset (bf_order lens) = mset [0..<16] \<and>
         sorted_wrt (\<lambda>a b. lens ! b \<le> lens ! a) (bf_order lens) \<and>
         (\<forall>i<16. lens ! i \<le> lens ! (bf_order lens ! 0)) \<and>
         (\<forall>i<16. lens ! (bf_order lens ! 15) \<le> lens ! i) \<and>
         (\<forall>i j. i < j \<and> j < 16 \<and> lens ! (bf_order lens ! i) = lens ! (bf_order lens ! j) \<longrightarrow>
                bf_order lens ! i < bf_order lens ! j)"
proof -
  let ?o = "bf_order lens"
  have m: "mset ?o = mset [0..<16]" by (simp add: bf_order_def mset_qsort_r)
  have s: "sorted_wrt (\<lambda>a b. lens ! b \<le> lens ! a) ?o" using assms by (rule bf_order_sorted)
  have l: "length ?o = 16" by (rule length_bf_order)
  have st: "set ?o = {0..<16}" using bf_order_perm by simp
  have nth: "lens ! (?o ! k) \<le> lens ! (?o ! j)" if "j \<le> k" "k < 16" for j k
  proof (cases "j = k")
    case True
    then show ?thesis by simp
  next
    case False
    with that have "j < k" by simp
    with s l that(2) show ?thesis by (simp add: sorted_wrt_iff_nth_less)
  qed
  have big: "\<forall>i<16. lens ! i \<le> lens ! (?o ! 0)"
  proof (intro allI impI)
    fix i :: nat assume "i < 16"
    with st have "i \<in> set ?o" by simp
    then obtain k where "k < length ?o" "?o ! k = i" by (auto simp: in_set_conv_nth)
    with nth [of 0 k] l show "lens ! i \<le> lens ! (?o ! 0)" by simp
  qed
  have small: "\<forall>i<16. lens ! (?o ! 15) \<le> lens ! i"
  proof (intro allI impI)
    fix i :: nat assume "i < 16"
    with st have "i \<in> set ?o" by simp
    then obtain k where "k < length ?o" "?o ! k = i" by (auto simp: in_set_conv_nth)
    with nth [of k 15] l show "lens ! (?o ! 15) \<le> lens ! i" by simp
  qed
  have stable: "\<forall>i j. i < j \<and> j < 16 \<and> lens ! (?o ! i) = lens ! (?o ! j) \<longrightarrow> ?o ! i < ?o ! j"
  proof (intro allI impI)
    fix i j assume a: "i < j \<and> j < 16 \<and> lens ! (?o ! i) = lens ! (?o ! j)"
    from bf_order_stable_sorted [OF assms] l
    have "\<forall>i j. i < j \<longrightarrow> j < 16 \<longrightarrow>
        lens ! (?o ! j) < lens ! (?o ! i) \<or> (lens ! (?o ! i) = lens ! (?o ! j) \<and> ?o ! i < ?o ! j)"
      by (simp add: sorted_wrt_iff_nth_less)
    with a
    have "lens ! (?o ! j) < lens ! (?o ! i) \<or> (lens ! (?o ! i) = lens ! (?o ! j) \<and> ?o ! i < ?o ! j)"
      by blast
    with a show "?o ! i < ?o ! j" by simp
  qed
  from m s big small stable show ?thesis by blast
qed

theorem bf_order_descending_witness:
  "length [2, 3, 2, 3, 1, 1, 1, 1, 1, 1, 1, 1, 1, 1, 1, 1::nat] = 16 \<and>
   bf_order [2, 3, 2, 3, 1, 1, 1, 1, 1, 1, 1, 1, 1, 1, 1, 1]
     = [1, 3, 0, 2, 4, 5, 6, 7, 8, 9, 10, 11, 12, 13, 14, 15] \<and>
   sorted_wrt (\<lambda>a b. [2, 3, 2, 3, 1, 1, 1, 1, 1, 1, 1, 1, 1, 1, 1, 1::nat] ! b
                   \<le> [2, 3, 2, 3, 1, 1, 1, 1, 1, 1, 1, 1, 1, 1, 1, 1] ! a)
     (bf_order [2, 3, 2, 3, 1, 1, 1, 1, 1, 1, 1, 1, 1, 1, 1, 1]) \<and>
   bf_order [2, 3, 2, 3, 1, 1, 1, 1, 1, 1, 1, 1, 1, 1, 1, 1] ! 0
     < bf_order [2, 3, 2, 3, 1, 1, 1, 1, 1, 1, 1, 1, 1, 1, 1, 1] ! 1"
proof -
  let ?L = "[2, 3, 2, 3, 1, 1, 1, 1, 1, 1, 1, 1, 1, 1, 1, 1::nat]"
  have h: "length ?L = 16" by simp
  note t = bf_order_descending [OF h]
  from t have a: "sorted_wrt (\<lambda>a b. ?L ! b \<le> ?L ! a) (bf_order ?L)" by blast
  from t have "\<forall>i j. i < j \<and> j < 16 \<and> ?L ! (bf_order ?L ! i) = ?L ! (bf_order ?L ! j) \<longrightarrow>
                bf_order ?L ! i < bf_order ?L ! j" by blast
  then have "0 < (1::nat) \<and> (1::nat) < 16 \<and> ?L ! (bf_order ?L ! 0) = ?L ! (bf_order ?L ! 1) \<longrightarrow>
                bf_order ?L ! 0 < bf_order ?L ! 1" by blast
  moreover have "?L ! (bf_order ?L ! 0) = ?L ! (bf_order ?L ! 1)"
    unfolding bf_order_ties_example by simp
  ultimately have b: "bf_order ?L ! 0 < bf_order ?L ! 1" by simp
  from h a b bf_order_ties_example show ?thesis by blast
qed




text \<open>
  C8.  In main.c the tallying block of \<open>generate\<close> is missing (see C1), so the statement is
  about the key study with the block of the specification in place.  When it returns,
  having zeroed the tally table and the counters before its measurement loop, then
  \<open>total_runs\<close> is the number of rounds of that loop (\<open>runs\<close>, or 0 for a negative \<open>runs\<close>),
  and for every position \<open>i\<close> below 16 the counts \<open>num\<close> of row \<open>i\<close> add up to \<open>total_runs\<close>
  and the sums \<open>ticks\<close> of row \<open>i\<close> add up to \<open>total_ticks\<close>.  (Every tick sum is a whole number, and up to the \<open>2^22\<close> runs
  that \<open>main\<close> asks for its magnitude is at most \<open>2^53\<close>: see \<open>tallied_ticks_exact\<close>.)
\<close>

theorem tally_conservation:
  assumes "study_key_tallying e st tly means data test_key gen_key runs = Some (k, d, st', tly', means')"
  shows "sint (total_runs st') = int (nat (sint runs)) \<and>
         (\<forall>i<16. (\<Sum>b<256. sint (num (tly' ! i ! b))) = sint (total_runs st') \<and>
                  (\<Sum>b<256. ticks (tly' ! i ! b)) = real_of_int (sint (total_ticks st')))"
  using study_key_tallying_conserves [OF assms] by (simp add: tallied_def)

theorem tally_conservation_witness:
  "\<exists>k d st' tly' m.
     study_key_tallying noisy_env (init_globals\<lparr>tally_threshold := 500\<rparr>) [] [] []
       (replicate 16 1) False 2 = Some (k, d, st', tly', m) \<and>
     clock st' = 3 \<and> total_runs st' = 2 \<and> total_ticks st' = 202 \<and>
     tly' ! 5 ! 5 = \<lparr>num = 1, ticks = 100\<rparr> \<and> tly' ! 5 ! 21 = \<lparr>num = 1, ticks = 102\<rparr> \<and>
     (\<Sum>b<256. sint (num (tly' ! 5 ! b))) = 2 \<and> (\<Sum>b<256. ticks (tly' ! 5 ! b)) = 202"
proof -
  let ?s0 = "init_globals\<lparr>tally_threshold := 500, total_ticks := 0, total_runs := 0\<rparr>"
  let ?P1 = "map (\<lambda>i. rand noisy_env (0 + i)) [0..<16]"
  let ?P2 = "map (\<lambda>i. rand noisy_env (16 + i)) [0..<16]"
  let ?s1 = "?s0\<lparr>rand_pos := 16, clock := 1, total_ticks := 100, total_runs := 1\<rparr>"
  let ?s2 = "?s0\<lparr>rand_pos := 32, clock := 3, total_ticks := 202, total_runs := 2\<rparr>"
  let ?T1 = "map (\<lambda>i. (zero_tally ! i)[unat (?P1 ! i) := tally_cell 100 (zero_tally ! i ! unat (?P1 ! i))]) [0..<16]"
  let ?T2 = "map (\<lambda>i. (?T1 ! i)[unat (?P2 ! i) := tally_cell 102 (?T1 ! i ! unat (?P2 ! i))]) [0..<16]"
  have a0: "\<not> tally_threshold ?s0 <s rdtsc_ticks noisy_env (clock ?s0 + 0)"
    by (simp add: noisy_env_def init_globals_def word_sless_alt)
  have b0: "\<forall>j<0. tally_threshold ?s0 <s rdtsc_ticks noisy_env (clock ?s0 + j)" by simp
  have g1: "generate_tallying noisy_env ?s0 zero_tally = Some (?P1, 100, ?s1, ?T1)"
    unfolding generate_tallying_at [OF a0 b0] Let_def
    by (simp add: noisy_env_def init_globals_def del: upt_Suc map_eq_conv)
  have a1: "\<not> tally_threshold ?s1 <s rdtsc_ticks noisy_env (clock ?s1 + 1)"
    by (simp add: noisy_env_def init_globals_def word_sless_alt)
  have b1: "\<forall>j<1. tally_threshold ?s1 <s rdtsc_ticks noisy_env (clock ?s1 + j)"
    by (simp add: noisy_env_def init_globals_def word_sless_alt)
  have g2: "generate_tallying noisy_env ?s1 ?T1 = Some (?P2, 102, ?s2, ?T2)"
    unfolding generate_tallying_at [OF a1 b1] Let_def
    by (simp add: noisy_env_def init_globals_def del: upt_Suc map_eq_conv)
  have n2: "nat (sint (2 :: 32 word)) = Suc (Suc 0)" by simp
  have nz: "((2 :: 32 word) = 0) = False" by simp
  have gn: "generate_n_tallying noisy_env (Suc (Suc 0)) [] ?s0 zero_tally = Some (?P2, ?s2, ?T2)"
    by (simp only: generate_n_tallying.simps g1 g2 option.case prod.case)
  have h: "study_key_tallying noisy_env (init_globals\<lparr>tally_threshold := 500\<rparr>) [] [] []
       (replicate 16 1) False 2 = Some (replicate 16 1, ?P2, ?s2, ?T2, [])"
    unfolding study_key_tallying_def Let_def n2
    by (simp only: if_False prod.case gn option.case nz calc_means_def)
  note t = tally_conservation [OF h]
  have c1: "?T2 ! 5 ! 5 = \<lparr>num = 1, ticks = 100\<rparr>"
    by (simp add: noisy_env_def zero_tally_def tally_cell_def del: upt_Suc)
  have c2: "?T2 ! 5 ! 21 = \<lparr>num = 1, ticks = 102\<rparr>"
    by (simp add: noisy_env_def zero_tally_def tally_cell_def del: upt_Suc)
  have f: "(5::nat) < 16" by simp
  from t have "(\<Sum>b<256. sint (num (?T2 ! 5 ! b))) = sint (total_runs ?s2) \<and>
      (\<Sum>b<256. ticks (?T2 ! 5 ! b)) = real_of_int (sint (total_ticks ?s2))"
    using f by blast
  then have s: "(\<Sum>b<256. sint (num (?T2 ! 5 ! b))) = 2" "(\<Sum>b<256. ticks (?T2 ! 5 ! b)) = 202"
    by simp_all
  have "clock ?s2 = 3 \<and> total_runs ?s2 = 2 \<and> total_ticks ?s2 = 202" by simp
  with h c1 c2 s show ?thesis by blast
qed

text \<open>
  C9.  \<open>generate\<close> returns if and only if some measurement from the current one on does not
  exceed \<open>tally_threshold\<close>; if every measurement exceeds it, \<open>generate\<close> never returns.
\<close>

theorem generate_terminates_iff:
  "generate e st tly \<noteq> None \<longleftrightarrow>
     (\<exists>k. sint (rdtsc_ticks e (clock st + k)) \<le> sint (tally_threshold st))"
  by (simp add: generate_None_iff word_sless_alt not_less)

text \<open>
  C10.  The exit code of \<open>main\<close> is 1 when \<open>aes.key\<close> cannot be opened or holds fewer than
  16 bytes.  With a readable key and no \<open>bf.dat\<close>, \<open>brute_force\<close> returns -1 without trying a
  key and \<open>main\<close> goes on to correlation gathering: its exit code is 0 when the gathering
  comes to an end, which it does when no measurement exceeds the threshold that the
  calibration sets; and a gathering that has come to an end has calibrated the threshold,
  kept it, and studied eleven keys, the target key and ten random ones, with \<open>2^22\<close> random
  plaintexts and at least \<open>2^22\<close> timed encryptions each.  With a readable key and a
  \<open>bf.dat\<close>, \<open>brute_force\<close> returns 0 or 1 and that is the exit code: 0 exactly when the last
  key tried encrypts the all-zeros block to the reference ciphertext, and, for a
  well-formed \<open>bf.dat\<close>, 1 only after every combination of the pools has been tried and
  none has matched.
\<close>

theorem main_exit_codes:
  "main e fr arg None bf_file aes = Some 1 \<and>
   (length f < 16 \<longrightarrow> main e fr arg (Some f) bf_file aes = Some 1) \<and>
   (16 \<le> length f \<longrightarrow>
      brute_force aes None (take 16 f) = Some (- 1, []) \<and>
      main e fr arg (Some f) None aes =
        map_option (\<lambda>r. 0)
          (gather e (init_globals\<lparr>d_arg := (case arg of None \<Rightarrow> 0 | Some d \<Rightarrow> d)\<rparr>) fr (take 16 f)) \<and>
      (\<forall>st' fr'.
         gather e (init_globals\<lparr>d_arg := (case arg of None \<Rightarrow> 0 | Some d \<Rightarrow> d)\<rparr>) fr (take 16 f)
           = Some (st', fr') \<longrightarrow>
         (\<exists>k d st1.
            calc_encryption_stats e (test_key_buf fr) (data_buf fr) 4194304
              (init_globals\<lparr>d_arg := (case arg of None \<Rightarrow> 0 | Some d \<Rightarrow> d)\<rparr>) = Some (k, d, st1) \<and>
            tally_threshold st' = tally_threshold st1 \<and>
            rand_pos st' = rand_pos st1 + 16 * (11 * 4194304 + 10) \<and>
            clock st1 + 11 * 4194304 \<le> clock st')) \<and>
      (\<forall>k d st1.
         calc_encryption_stats e (test_key_buf fr) (data_buf fr) 4194304
           (init_globals\<lparr>d_arg := (case arg of None \<Rightarrow> 0 | Some d \<Rightarrow> d)\<rparr>) = Some (k, d, st1) \<and>
         (\<forall>j. sint (rdtsc_ticks e j) \<le> sint (tally_threshold st1)) \<longrightarrow>
         main e fr arg (Some f) None aes = Some 0) \<and>
      (\<exists>rc ks.
         brute_force aes (Some b) (take 16 f) = Some (rc, ks) \<and>
         main e fr arg (Some f) (Some b) aes = Some rc \<and> (rc = 0 \<or> rc = 1) \<and>
         (rc = 0) = (ks \<noteq> [] \<and>
            brute_force_attempt aes (last ks) (replicate 16 0) (aes (take 16 f) (replicate 16 0)) = 0) \<and>
         (\<forall>lens pools. read_pools 16 b = Some (lens, pools) \<and> rc = 1 \<longrightarrow>
            set ks = {k. length k = 16 \<and> (\<forall>i<16. k ! i \<in> set (pools ! i))} \<and>
            length ks = prod_list lens \<and>
            (\<forall>k\<in>set ks. brute_force_attempt aes k (replicate 16 0)
                            (aes (take 16 f) (replicate 16 0)) \<noteq> 0))))"
proof (intro conjI impI)
  show "main e fr arg None bf_file aes = Some 1" by (simp add: main_def)
next
  assume "length f < 16"
  then show "main e fr arg (Some f) bf_file aes = Some 1" by (simp add: main_def)
next
  assume "16 \<le> length f"
  show "brute_force aes None (take 16 f) = Some (- 1, [])" by (rule brute_force_absent)
next
  assume "16 \<le> length f"
  then show "main e fr arg (Some f) None aes =
        map_option (\<lambda>r. 0)
          (gather e (init_globals\<lparr>d_arg := (case arg of None \<Rightarrow> 0 | Some d \<Rightarrow> d)\<rparr>) fr (take 16 f))"
    by (simp add: main_def brute_force_absent Let_def split: option.splits)
next
  assume "16 \<le> length f"
  let ?st0 = "init_globals\<lparr>d_arg := (case arg of None \<Rightarrow> 0 | Some d \<Rightarrow> d)\<rparr>"
  show "\<forall>st' fr'. gather e ?st0 fr (take 16 f) = Some (st', fr') \<longrightarrow>
         (\<exists>k d st1.
            calc_encryption_stats e (test_key_buf fr) (data_buf fr) 4194304 ?st0 = Some (k, d, st1) \<and>
            tally_threshold st' = tally_threshold st1 \<and>
            rand_pos st' = rand_pos st1 + 16 * (11 * 4194304 + 10) \<and>
            clock st1 + 11 * 4194304 \<le> clock st')"
    using gather_effects [of e ?st0 fr "take 16 f"] by blast
next
  assume l: "16 \<le> length f"
  let ?st0 = "init_globals\<lparr>d_arg := (case arg of None \<Rightarrow> 0 | Some d \<Rightarrow> d)\<rparr>"
  show "\<forall>k d st1.
         calc_encryption_stats e (test_key_buf fr) (data_buf fr) 4194304 ?st0 = Some (k, d, st1) \<and>
         (\<forall>j. sint (rdtsc_ticks e j) \<le> sint (tally_threshold st1)) \<longrightarrow>
         main e fr arg (Some f) None aes = Some 0"
  proof (intro allI impI)
    fix k d st1
    assume a: "calc_encryption_stats e (test_key_buf fr) (data_buf fr) 4194304 ?st0 = Some (k, d, st1) \<and>
         (\<forall>j. sint (rdtsc_ticks e j) \<le> sint (tally_threshold st1))"
    then have c: "calc_encryption_stats e (test_key_buf fr) (data_buf fr) (push_bit DEFAULT_RUNS 1) ?st0
        = Some (k, d, st1)" unfolding default_runs by blast
    from a have "\<forall>j. \<not> tally_threshold st1 <s rdtsc_ticks e j"
      by (simp add: word_sless_alt not_less)
    from gather_accepts [OF c this, of "take 16 f"] obtain r where
      "gather e ?st0 fr (take 16 f) = Some r" by auto
    with l show "main e fr arg (Some f) None aes = Some 0"
      by (simp add: main_def brute_force_absent Let_def)
  qed
next
  assume l: "16 \<le> length f"
  from brute_force_result [of aes b "take 16 f"] obtain rc ks where
    r: "brute_force aes (Some b) (take 16 f) = Some (rc, ks)" "rc = 0 \<or> rc = 1"
       "(rc = 0) = (ks \<noteq> [] \<and>
            brute_force_attempt aes (last ks) (replicate 16 0) (aes (take 16 f) (replicate 16 0)) = 0)"
       "\<forall>lens pools. read_pools 16 b = Some (lens, pools) \<and> rc = 1 \<longrightarrow>
            set ks = {k. length k = 16 \<and> (\<forall>i<16. k ! i \<in> set (pools ! i))} \<and>
            length ks = prod_list lens \<and>
            (\<forall>k\<in>set ks. brute_force_attempt aes k (replicate 16 0)
                            (aes (take 16 f) (replicate 16 0)) \<noteq> 0)"
    by blast
  from r(1,2) l have "main e fr arg (Some f) (Some b) aes = Some rc"
    by (auto simp: main_def Let_def)
  with r show "\<exists>rc ks.
         brute_force aes (Some b) (take 16 f) = Some (rc, ks) \<and>
         main e fr arg (Some f) (Some b) aes = Some rc \<and> (rc = 0 \<or> rc = 1) \<and>
         (rc = 0) = (ks \<noteq> [] \<and>
            brute_force_attempt aes (last ks) (replicate 16 0) (aes (take 16 f) (replicate 16 0)) = 0) \<and>
         (\<forall>lens pools. read_pools 16 b = Some (lens, pools) \<and> rc = 1 \<longrightarrow>
            set ks = {k. length k = 16 \<and> (\<forall>i<16. k ! i \<in> set (pools ! i))} \<and>
            length ks = prod_list lens \<and>
            (\<forall>k\<in>set ks. brute_force_attempt aes k (replicate 16 0)
                            (aes (take 16 f) (replicate 16 0)) \<noteq> 0))"
    by blast
qed

theorem main_exit_codes_witness:
  "main quiet_env empty_frame None None None key_cipher = Some 1 \<and>
   main quiet_env empty_frame None (Some (replicate 15 7)) None key_cipher = Some 1 \<and>
   main quiet_env empty_frame None (Some (replicate 16 7)) None key_cipher = Some 0 \<and>
   (\<exists>st' fr'. gather quiet_env (init_globals\<lparr>d_arg := 0\<rparr>) empty_frame (replicate 16 7) = Some (st', fr') \<and>
      sint (tally_threshold st') = 500 \<and> 12 * 4194304 \<le> clock st') \<and>
   main quiet_env empty_frame None (Some ([1, 6, 9] @ replicate 13 0))
     (Some (pool_file ([[0, 1], [5, 6, 7], [8, 9]] @ replicate 13 [0]))) key_cipher = Some 0 \<and>
   main quiet_env empty_frame None (Some ([4, 6, 9] @ replicate 13 0))
     (Some (pool_file ([[0, 1], [5, 6, 7], [8, 9]] @ replicate 13 [0]))) key_cipher = Some 1"
proof -
  let ?b = "pool_file ([[0, 1], [5, 6, 7], [8, 9]] @ replicate 13 [0::byte])"
  let ?st0 = "init_globals\<lparr>d_arg := 0\<rparr>"
  note t = main_exit_codes [of quiet_env empty_frame None None key_cipher]
  have a: "main quiet_env empty_frame None None None key_cipher = Some 1"
    using t [of "[]" "[]"] by blast
  have b: "main quiet_env empty_frame None (Some (replicate 15 7)) None key_cipher = Some 1"
    using t [of "replicate 15 7" "[]"] by simp
  have l: "16 \<le> length (replicate 16 (7::byte))" by simp
  let ?stc = "init_globals\<lparr>d_arg := (case None :: double option of None \<Rightarrow> 0 | Some d \<Rightarrow> d)\<rparr>"
  have stc: "?stc = ?st0" by simp
  note t7 = t [of "replicate 16 7" "[]", THEN conjunct2, THEN conjunct2, THEN mp, OF l]
  note m = t7 [THEN conjunct2, THEN conjunct1, unfolded stc]
  note eff = t7 [THEN conjunct2, THEN conjunct2, THEN conjunct1, unfolded stc]
  note acc = t7 [THEN conjunct2, THEN conjunct2, THEN conjunct2, THEN conjunct1, unfolded stc]
  from calc_quiet [of "test_key_buf empty_frame" "data_buf empty_frame"] obtain k d st1 where
    q: "calc_encryption_stats quiet_env (test_key_buf empty_frame) (data_buf empty_frame) 4194304 ?st0
          = Some (k, d, st1)" "sint (tally_threshold st1) = 500" "clock st1 = 4194304" by blast
  have "\<forall>j. sint (rdtsc_ticks quiet_env j) \<le> sint (tally_threshold st1)"
    using q(2) by (simp add: quiet_env_def)
  with q(1) have c: "main quiet_env empty_frame None (Some (replicate 16 7)) None key_cipher = Some 0"
    by (intro acc [rule_format, of k d st1]) simp
  with m obtain st' fr' where
    g: "gather quiet_env ?st0 empty_frame (take 16 (replicate 16 7)) = Some (st', fr')"
    by (cases "gather quiet_env ?st0 empty_frame (take 16 (replicate 16 7))") auto
  from eff [rule_format, OF g] obtain k' d' st1' where
    e1: "calc_encryption_stats quiet_env (test_key_buf empty_frame) (data_buf empty_frame) 4194304 ?st0
              = Some (k', d', st1')"
    and e2: "tally_threshold st' = tally_threshold st1'"
    and e3: "clock st1' + 11 * 4194304 \<le> clock st'" by blast
  from e1 q(1) have "st1' = st1" by simp
  with e2 e3 q(2,3) have "sint (tally_threshold st') = 500 \<and> 12 * 4194304 \<le> clock st'" by simp
  with g have d: "\<exists>st' fr'. gather quiet_env ?st0 empty_frame (replicate 16 7) = Some (st', fr') \<and>
      sint (tally_threshold st') = 500 \<and> 12 * 4194304 \<le> clock st'" by auto
  have l2: "16 \<le> length ([1, 6, 9] @ replicate 13 (0::byte))"
    "16 \<le> length ([4, 6, 9] @ replicate 13 (0::byte))" by simp_all
  from t [of "[1, 6, 9] @ replicate 13 0" ?b, THEN conjunct2, THEN conjunct2, THEN mp, OF l2(1),
      THEN conjunct2, THEN conjunct2, THEN conjunct2, THEN conjunct2] obtain rc ks where
    "brute_force key_cipher (Some ?b) (take 16 ([1, 6, 9] @ replicate 13 0)) = Some (rc, ks)"
    "main quiet_env empty_frame None (Some ([1, 6, 9] @ replicate 13 0)) (Some ?b) key_cipher = Some rc"
    by blast
  with bf_small_example
  have e: "main quiet_env empty_frame None (Some ([1, 6, 9] @ replicate 13 0)) (Some ?b) key_cipher = Some 0"
    by auto
  from t [of "[4, 6, 9] @ replicate 13 0" ?b, THEN conjunct2, THEN conjunct2, THEN mp, OF l2(2),
      THEN conjunct2, THEN conjunct2, THEN conjunct2, THEN conjunct2] obtain rc ks where
    "brute_force key_cipher (Some ?b) (take 16 ([4, 6, 9] @ replicate 13 0)) = Some (rc, ks)"
    "main quiet_env empty_frame None (Some ([4, 6, 9] @ replicate 13 0)) (Some ?b) key_cipher = Some rc"
    by blast
  with bf_small_example
  have f: "main quiet_env empty_frame None (Some ([4, 6, 9] @ replicate 13 0)) (Some ?b) key_cipher = Some 1"
    by auto
  from a b c d e f show ?thesis by blast
qed

end
